theory Spec2Isabelle
  imports Main "HOL-Library.AList" "HOL-Library.Char_ord" "HOL-Library.List_Lexorder"
begin

section \<open>Errors and Python containers\<close>

text \<open>
  Every exception of \<^verbatim>\<open>network.py\<close> is a value. \<open>TypeError\<close> is what Python raises
  for \<^verbatim>\<open>raise('...')\<close> in \<^verbatim>\<open>from_byte_S\<close> (a string is not an exception);
  \<open>RecursionError\<close> is what the same statement does in \<^verbatim>\<open>to_byte_S\<close>, where
  building the message prints the packet, which calls \<^verbatim>\<open>to_byte_S\<close> again.
  \<open>QueueFull\<close> is \<^verbatim>\<open>queue.Full\<close> of a non-blocking put. \<open>Blocked\<close> stands for a
  blocking put on a full queue: the calling thread is suspended until another
  thread removes an element, so in this sequential model the call does not return.
  \<open>JSONDecodeError\<close> is left to the \<^verbatim>\<open>json.loads\<close> parameter, \<open>UnknownType\<close> is the
  \<^verbatim>\<open>Exception\<close> at the end of \<^verbatim>\<open>process_queues\<close>.
\<close>

datatype error = KeyError | IndexError | TypeError | RecursionError
  | QueueFull | Blocked | JSONDecodeError | UnknownType

text \<open>
  A \<^verbatim>\<open>dict\<close> is an association list in insertion order; \<open>AList.update\<close> is
  \<^verbatim>\<open>d[k] = v\<close> (an existing key keeps its place, a new one goes last).
\<close>

definition keys :: "('k \<times> 'v) list \<Rightarrow> 'k list" where
  "keys d = map fst d"

definition getitem :: "('k \<times> 'v) list \<Rightarrow> 'k \<Rightarrow> error + 'v" where
  "getitem d k = (case map_of d k of None \<Rightarrow> Inl KeyError | Some v \<Rightarrow> Inr v)"

definition index :: "'a list \<Rightarrow> int \<Rightarrow> error + nat" where
  \<comment> \<open>the position \<^verbatim>\<open>xs[i]\<close> reads or writes: a negative index counts from the end\<close>
  "index xs i =
     (if 0 \<le> i \<and> i < int (length xs) then Inr (nat i)
      else if i < 0 \<and> - int (length xs) \<le> i then Inr (nat (int (length xs) + i))
      else Inl IndexError)"

fun for_each :: "('a \<Rightarrow> 's \<Rightarrow> error + 's) \<Rightarrow> 'a list \<Rightarrow> 's \<Rightarrow> error + 's" where
  "for_each f [] s = Inr s"
| "for_each f (x # xs) s =
     (case f x s of Inl e \<Rightarrow> Inl e | Inr s' \<Rightarrow> for_each f xs s')"

section \<open>Interface: a pair of queues\<close>

record Interface =
  in_queue :: "string list"
  out_queue :: "string list"
  maxsize :: int

definition Interface_init :: "int \<Rightarrow> Interface" where
  "Interface_init m = \<lparr>in_queue = [], out_queue = [], maxsize = m\<rparr>"

definition full :: "int \<Rightarrow> string list \<Rightarrow> bool" where
  \<comment> \<open>\<^verbatim>\<open>queue.Queue(maxsize)\<close>: a size of zero or less is unbounded\<close>
  "full m q = (0 < m \<and> m \<le> int (length q))"

definition get :: "Interface \<Rightarrow> string \<Rightarrow> string option \<times> Interface" where
  "get intf in_or_out =
     (if in_or_out = ''in'' then
        (case in_queue intf of
           [] \<Rightarrow> (None, intf)
         | pkt_S # rest \<Rightarrow> (Some pkt_S, intf\<lparr>in_queue := rest\<rparr>))
      else
        (case out_queue intf of
           [] \<Rightarrow> (None, intf)
         | pkt_S # rest \<Rightarrow> (Some pkt_S, intf\<lparr>out_queue := rest\<rparr>)))"

definition put :: "Interface \<Rightarrow> string \<Rightarrow> string \<Rightarrow> bool \<Rightarrow> error + Interface" where
  "put intf pkt in_or_out block =
     (if in_or_out = ''out'' then
        (if full (maxsize intf) (out_queue intf)
         then Inl (if block then Blocked else QueueFull)
         else Inr (intf\<lparr>out_queue := out_queue intf @ [pkt]\<rparr>))
      else
        (if full (maxsize intf) (in_queue intf)
         then Inl (if block then Blocked else QueueFull)
         else Inr (intf\<lparr>in_queue := in_queue intf @ [pkt]\<rparr>)))"

section \<open>NetworkPacket: the wire format\<close>

record NetworkPacket =
  dst :: string
  prot_S :: string
  data_S :: string

definition dst_S_length :: nat where
  "dst_S_length = 5"

definition prot_S_length :: nat where
  "prot_S_length = 1"

definition zfill :: "string \<Rightarrow> nat \<Rightarrow> string" where
  \<comment> \<open>\<^verbatim>\<open>str.zfill\<close>: zeros go after a leading sign\<close>
  "zfill s width =
     (if width \<le> length s then s
      else (case s of
              c # rest \<Rightarrow>
                if c = CHR ''+'' \<or> c = CHR ''-''
                then c # replicate (width - length s) CHR ''0'' @ rest
                else replicate (width - length s) CHR ''0'' @ s
            | [] \<Rightarrow> replicate (width - length s) CHR ''0'' @ s))"

definition strip :: "char \<Rightarrow> string \<Rightarrow> string" where
  \<comment> \<open>\<^verbatim>\<open>s.strip(c)\<close> removes the character at both ends\<close>
  "strip c s = rev (dropWhile (\<lambda>x. x = c) (rev (dropWhile (\<lambda>x. x = c) s)))"

definition to_byte_S :: "NetworkPacket \<Rightarrow> error + string" where
  "to_byte_S p =
     (let byte_S = zfill (dst p) dst_S_length in
      if prot_S p = ''data'' then Inr (byte_S @ ''1'' @ data_S p)
      else if prot_S p = ''control'' then Inr (byte_S @ ''2'' @ data_S p)
      else Inl RecursionError)"

definition from_byte_S :: "string \<Rightarrow> error + NetworkPacket" where
  "from_byte_S byte_S =
     (let d = strip CHR ''0'' (take dst_S_length byte_S);
          t = take prot_S_length (drop dst_S_length byte_S);
          body = drop (dst_S_length + prot_S_length) byte_S
      in if t = ''1'' then Inr \<lparr>dst = d, prot_S = ''data'', data_S = body\<rparr>
         else if t = ''2'' then Inr \<lparr>dst = d, prot_S = ''control'', data_S = body\<rparr>
         else Inl TypeError)"

section \<open>Router\<close>

type_synonym cost_vector = "(string \<times> int) list"
type_synonym routing_table = "(string \<times> cost_vector) list"
type_synonym cost_table = "(string \<times> (int \<times> int) list) list"

record Router =
  name :: string
  intf_L :: "Interface list"
  cost_D :: cost_table
  rt_tbl_D :: routing_table

definition startswith :: "string \<Rightarrow> string \<Rightarrow> bool" where
  "startswith s pre = (take (length pre) s = pre)"

definition Router_init :: "string \<Rightarrow> cost_table \<Rightarrow> int \<Rightarrow> Router" where
  \<comment> \<open>the inner comprehension writes the one key \<^verbatim>\<open>self.name\<close> once per interface of
      the neighbor, so a neighbor without interfaces gets an empty row\<close>
  "Router_init nm costs max_queue_size =
     \<lparr>name = nm,
      intf_L = replicate (length costs) (Interface_init max_queue_size),
      cost_D = costs,
      rt_tbl_D = AList.update nm [(nm, 0)]
        (map (\<lambda>(neighbor, ifs).
               (neighbor, fold (\<lambda>(k, v) row. AList.update nm v row) ifs [])) costs)\<rparr>"

subsection \<open>Forwarding\<close>

definition next_hop_step ::
  "Router \<Rightarrow> string \<Rightarrow> string \<Rightarrow> string \<times> int \<Rightarrow> error + string \<times> int" where
  \<comment> \<open>the body of the loop over the neighbouring routers\<close>
  "next_hop_step rt d router acc =
     (case acc of (cfwd, ccost) \<Rightarrow>
      case getitem (rt_tbl_D rt) d of Inl e \<Rightarrow> Inl e | Inr drow \<Rightarrow>
      case getitem drow router of Inl e \<Rightarrow> Inl e | Inr a \<Rightarrow>
      case getitem (rt_tbl_D rt) router of Inl e \<Rightarrow> Inl e | Inr rrow \<Rightarrow>
      case getitem rrow (name rt) of Inl e \<Rightarrow> Inl e | Inr b \<Rightarrow>
      let cost = a + b
      in if cost < ccost then Inr (router, cost) else Inr (cfwd, ccost))"

definition neighbor_routers :: "Router \<Rightarrow> string list" where
  "neighbor_routers rt = filter (\<lambda>key. startswith key ''R'') (keys (cost_D rt))"

definition choose_next_hop :: "Router \<Rightarrow> string \<Rightarrow> error + string" where
  "choose_next_hop rt d =
     (if d \<in> set (keys (cost_D rt)) then Inr d
      else case for_each (next_hop_step rt d) (neighbor_routers rt) ([], 999) of
             Inl e \<Rightarrow> Inl e
           | Inr (cfwd, ccost) \<Rightarrow> Inr cfwd)"

definition send_on :: "Router \<Rightarrow> nat \<Rightarrow> string \<Rightarrow> error + Router" where
  \<comment> \<open>\<^verbatim>\<open>self.intf_L[j].put(byte_S, 'out', True)\<close> inside \<^verbatim>\<open>try ... except queue.Full\<close>\<close>
  "send_on rt j byte_S =
     (case put (intf_L rt ! j) byte_S ''out'' True of
        Inl e \<Rightarrow> if e = QueueFull then Inr rt else Inl e
      | Inr intf' \<Rightarrow> Inr (rt\<lparr>intf_L := (intf_L rt)[j := intf']\<rparr>))"

definition transmit :: "Router \<Rightarrow> NetworkPacket \<Rightarrow> string \<Rightarrow> error + Router" where
  \<comment> \<open>the end of \<^verbatim>\<open>forward_packet\<close>: the first interface of the chosen neighbor takes
      the packet, encoded again\<close>
  "transmit rt p cfwd =
     (case getitem (cost_D rt) cfwd of Inl e \<Rightarrow> Inl e | Inr ifs \<Rightarrow>
      case keys ifs of [] \<Rightarrow> Inl IndexError | out # _ \<Rightarrow>
      case index (intf_L rt) out of Inl e \<Rightarrow> Inl e | Inr j \<Rightarrow>
      case to_byte_S p of Inl e \<Rightarrow> Inl e | Inr byte_S \<Rightarrow>
      send_on rt j byte_S)"

definition forward_packet :: "Router \<Rightarrow> NetworkPacket \<Rightarrow> nat \<Rightarrow> error + Router" where
  "forward_packet rt p i =
     (case choose_next_hop rt (dst p) of Inl e \<Rightarrow> Inl e | Inr cfwd \<Rightarrow> transmit rt p cfwd)"

subsection \<open>Routing updates\<close>

text \<open>
  \<^verbatim>\<open>json.dumps\<close> and \<^verbatim>\<open>json.loads\<close> are parameters \<open>dumps\<close> and \<open>loads\<close>. The keys of
  both tables are collected in a Python \<^verbatim>\<open>set\<close>, whose iteration order the language
  leaves open: the order is the parameter \<open>iter\<close> of \<open>update_routes\<close>, and the two
  loops over the table take the resulting key list \<open>ks\<close>.
\<close>

definition send_routes :: "(routing_table \<Rightarrow> string) \<Rightarrow> Router \<Rightarrow> nat \<Rightarrow> error + Router" where
  "send_routes dumps rt i =
     (let pbody = name rt @ dumps (rt_tbl_D rt);
          p = \<lparr>dst = ''0'', prot_S = ''control'', data_S = pbody\<rparr>
      in case to_byte_S p of Inl e \<Rightarrow> Inl e | Inr byte_S \<Rightarrow>
         if i < length (intf_L rt) then send_on rt i byte_S else Inl IndexError)"

definition store_vector ::
  "string \<Rightarrow> string \<Rightarrow> string \<Rightarrow> routing_table \<times> routing_table
     \<Rightarrow> error + routing_table \<times> routing_table" where
  \<comment> \<open>the body of the first loop, on the pair of the received vector and the table\<close>
  "store_vector own r d acc =
     (case acc of (rvec, tbl) \<Rightarrow>
      let rvec1 = (if d \<notin> set (keys rvec) then AList.update d [(r, 999)] rvec else rvec);
          tbl1 = (if d \<notin> set (keys tbl) then AList.update d [(own, 999)] tbl else tbl)
      in case getitem rvec1 d of Inl e \<Rightarrow> Inl e | Inr rrow \<Rightarrow>
         case getitem rrow r of Inl e \<Rightarrow> Inl e | Inr c \<Rightarrow>
         case getitem tbl1 d of Inl e \<Rightarrow> Inl e | Inr trow \<Rightarrow>
         Inr (rvec1, AList.update d (AList.update r c trow) tbl1))"

definition bellman_ford ::
  "string \<Rightarrow> string \<Rightarrow> string \<Rightarrow> routing_table \<times> bool \<Rightarrow> error + routing_table \<times> bool" where
  \<comment> \<open>the body of the inner loop, for destination \<open>y\<close> and router \<open>v\<close>; both come from
      the same set, so \<^verbatim>\<open>v is y\<close> is equality\<close>
  "bellman_ford own y v acc =
     (case acc of (tbl, updated) \<Rightarrow>
      if v = y then Inr (tbl, updated)
      else
        case getitem tbl y of Inl e \<Rightarrow> Inl e | Inr ycvec0 \<Rightarrow>
        let ycvec = (if v \<notin> set (keys ycvec0) then AList.update v 999 ycvec0 else ycvec0);
            tbl1 = AList.update y ycvec tbl
        in case getitem tbl1 v of Inl e \<Rightarrow> Inl e | Inr vcvec \<Rightarrow>
           case getitem vcvec own of Inl e \<Rightarrow> Inl e | Inr a \<Rightarrow>
           case getitem ycvec v of Inl e \<Rightarrow> Inl e | Inr b \<Rightarrow>
           let bf = a + b
           in case getitem ycvec own of Inl e \<Rightarrow> Inl e | Inr c \<Rightarrow>
              if bf < c then Inr (AList.update y (AList.update own bf ycvec) tbl1, True)
              else Inr (tbl1, updated))"

definition relax_all ::
  "string \<Rightarrow> string list \<Rightarrow> string list \<Rightarrow> routing_table \<times> bool
     \<Rightarrow> error + routing_table \<times> bool" where
  "relax_all own ks routers acc =
     for_each (\<lambda>y. for_each (bellman_ford own y) routers) ks acc"

definition merge ::
  "string \<Rightarrow> string \<Rightarrow> routing_table \<Rightarrow> string list \<Rightarrow> routing_table
     \<Rightarrow> error + routing_table \<times> bool" where
  \<comment> \<open>the two loops of \<^verbatim>\<open>update_routes\<close>: the new table and the flag \<^verbatim>\<open>updated\<close>\<close>
  "merge own r rvec ks tbl =
     (case for_each (store_vector own r) ks (rvec, tbl) of
        Inl e \<Rightarrow> Inl e
      | Inr (rvec', tbl1) \<Rightarrow>
          relax_all own ks (filter (\<lambda>key. startswith key ''R'') ks) (tbl1, False))"

definition update_routes ::
  "(string \<Rightarrow> error + routing_table) \<Rightarrow> (routing_table \<Rightarrow> string)
     \<Rightarrow> (string list \<Rightarrow> string list) \<Rightarrow> Router \<Rightarrow> NetworkPacket \<Rightarrow> nat \<Rightarrow> error + Router" where
  "update_routes loads dumps iter rt p i =
     (case to_byte_S p of Inl e \<Rightarrow> Inl e | Inr pbody \<Rightarrow>
      let r = take 2 (drop (dst_S_length + prot_S_length) pbody)
      in case loads (drop (dst_S_length + prot_S_length + 2) pbody) of
           Inl e \<Rightarrow> Inl e
         | Inr rvec \<Rightarrow>
             let ks = iter (remdups (keys (rt_tbl_D rt) @ keys rvec))
             in case merge (name rt) r rvec ks (rt_tbl_D rt) of
                  Inl e \<Rightarrow> Inl e
                | Inr (tbl', updated) \<Rightarrow>
                    let rt1 = rt\<lparr>rt_tbl_D := tbl'\<rparr>
                    in if updated
                       then for_each (\<lambda>j rt'. send_routes dumps rt' j)
                              [0..<length (intf_L rt1)] rt1
                       else Inr rt1)"

subsection \<open>One pass over the interfaces\<close>

definition process_interface ::
  "(string \<Rightarrow> error + routing_table) \<Rightarrow> (routing_table \<Rightarrow> string)
     \<Rightarrow> (string list \<Rightarrow> string list) \<Rightarrow> nat \<Rightarrow> Router \<Rightarrow> error + Router" where
  \<comment> \<open>the body of the loop of \<^verbatim>\<open>process_queues\<close>\<close>
  "process_interface loads dumps iter i rt =
     (if length (intf_L rt) \<le> i then Inl IndexError
      else case get (intf_L rt ! i) ''in'' of
             (None, intf') \<Rightarrow> Inr rt
           | (Some pkt_S, intf') \<Rightarrow>
               let rt1 = rt\<lparr>intf_L := (intf_L rt)[i := intf']\<rparr>
               in case from_byte_S pkt_S of
                    Inl e \<Rightarrow> Inl e
                  | Inr p \<Rightarrow>
                      if prot_S p = ''data'' then forward_packet rt1 p i
                      else if prot_S p = ''control'' then update_routes loads dumps iter rt1 p i
                      else Inl UnknownType)"

definition process_queues ::
  "(string \<Rightarrow> error + routing_table) \<Rightarrow> (routing_table \<Rightarrow> string)
     \<Rightarrow> (string list \<Rightarrow> string list) \<Rightarrow> Router \<Rightarrow> error + Router" where
  "process_queues loads dumps iter rt =
     for_each (process_interface loads dumps iter) [0..<length (intf_L rt)] rt"

section \<open>Observations used by the properties\<close>

definition cost_entry :: "routing_table \<Rightarrow> string \<Rightarrow> string \<Rightarrow> int option" where
  \<comment> \<open>\<^verbatim>\<open>table[d][v]\<close>, if both keys are there\<close>
  "cost_entry tbl d v = (case map_of tbl d of None \<Rightarrow> None | Some row \<Rightarrow> map_of row v)"

definition cost_or_inf :: "routing_table \<Rightarrow> string \<Rightarrow> string \<Rightarrow> int" where
  \<comment> \<open>an absent entry counts as the sentinel 999, as \<^verbatim>\<open>print_routes\<close> shows it\<close>
  "cost_or_inf tbl d v = (case cost_entry tbl d v of None \<Rightarrow> 999 | Some c \<Rightarrow> c)"

definition link_cost :: "cost_table \<Rightarrow> string \<Rightarrow> int" where
  \<comment> \<open>the cost of the link to a neighbor, as the cost table gives it\<close>
  "link_cost costs v = (case map_of costs v of Some ((i, c) # rest) \<Rightarrow> c | _ \<Rightarrow> 999)"

definition via_cost :: "Router \<Rightarrow> string \<Rightarrow> string \<Rightarrow> int option" where
  \<comment> \<open>\<^verbatim>\<open>table[d][v] + table[v][own]\<close>, the cost \<^verbatim>\<open>forward_packet\<close> gives the next hop \<open>v\<close>\<close>
  "via_cost rt d v =
     (case cost_entry (rt_tbl_D rt) d v of
        None \<Rightarrow> None
      | Some a \<Rightarrow>
          (case cost_entry (rt_tbl_D rt) v (name rt) of None \<Rightarrow> None | Some b \<Rightarrow> Some (a + b)))"

definition with_packet :: "string \<Rightarrow> Interface \<Rightarrow> Interface" where
  \<comment> \<open>the interface with one more packet at the end of its outbound queue\<close>
  "with_packet byte_S intf = intf\<lparr>out_queue := out_queue intf @ [byte_S]\<rparr>"

text \<open>
  \<open>first_cheapest rt d vs w k\<close>: in the list \<open>vs\<close> of candidates, \<open>w\<close> costs \<open>k\<close>, no
  candidate costs less, and every candidate before the first \<open>w\<close> costs more.
\<close>

definition at_least ::  "Router \<Rightarrow> string \<Rightarrow> int \<Rightarrow> string list \<Rightarrow> bool" where
  "at_least rt d k vs =
     list_all (\<lambda>x. case via_cost rt d x of None \<Rightarrow> False | Some kx \<Rightarrow> k \<le> kx) vs"

definition above :: "Router \<Rightarrow> string \<Rightarrow> int \<Rightarrow> string list \<Rightarrow> bool" where
  "above rt d k vs =
     list_all (\<lambda>x. case via_cost rt d x of None \<Rightarrow> False | Some kx \<Rightarrow> k < kx) vs"

definition first_cheapest :: "Router \<Rightarrow> string \<Rightarrow> string list \<Rightarrow> string \<Rightarrow> int \<Rightarrow> bool" where
  "first_cheapest rt d vs w k =
     (w \<in> set vs \<and> via_cost rt d w = Some k \<and> at_least rt d k vs \<and>
      above rt d k (takeWhile (\<lambda>x. x \<noteq> w) vs))"

definition has_room :: "Interface \<Rightarrow> bool" where
  \<comment> \<open>a put on the outbound queue returns at once\<close>
  "has_room intf = (\<not> full (maxsize intf) (out_queue intf))"

definition routes_packet ::
  "(routing_table \<Rightarrow> string) \<Rightarrow> string \<Rightarrow> routing_table \<Rightarrow> string" where
  \<comment> \<open>the bytes of the Control packet that carries the table of router \<open>nm\<close>\<close>
  "routes_packet dumps nm tbl = ''00000'' @ ''2'' @ nm @ dumps tbl"

definition nonneg_row :: "('k \<times> int) list \<Rightarrow> bool" where
  "nonneg_row row = list_all (\<lambda>(v, c). 0 \<le> c) row"

definition nonneg_table :: "('d \<times> ('k \<times> int) list) list \<Rightarrow> bool" where
  \<comment> \<open>no cost below zero, in a routing table, a received vector or a cost table\<close>
  "nonneg_table tbl = list_all (\<lambda>(d, row). nonneg_row row) tbl"

definition has_self :: "string \<Rightarrow> routing_table \<Rightarrow> bool" where
  \<comment> \<open>every row has the column of the owning router\<close>
  "has_self own tbl = list_all (\<lambda>(d, row). own \<in> set (keys row)) tbl"

definition has_interfaces :: "cost_table \<Rightarrow> bool" where
  \<comment> \<open>every neighbor of the cost table is reached through at least one interface\<close>
  "has_interfaces costs = list_all (\<lambda>(neighbor, ifs). ifs \<noteq> []) costs"

section \<open>Example data\<close>

text \<open>
  Router \<open>R1\<close> with the neighbors \<open>R2\<close> (link cost 10) and \<open>R3\<close> (link cost 1).
  \<open>example_table\<close> is its table after the vector of \<open>R3\<close> has been merged,
  \<open>example_written\<close> the table after the first loop has stored the vector of \<open>R2\<close>,
  \<open>example_merged\<close> the one after the relaxation that follows.
\<close>

definition example_costs :: cost_table where
  "example_costs = [(''R2'', [(0, 10)]), (''R3'', [(1, 1)])]"

definition example_vector_R3 :: routing_table where
  "example_vector_R3 = [(''R3'', [(''R3'', 0)]), (''R2'', [(''R3'', 2)]), (''R1'', [(''R3'', 1)])]"

definition example_vector_R2 :: routing_table where
  "example_vector_R2 =
     [(''R2'', [(''R2'', 0)]), (''H2'', [(''R2'', 1)]), (''R1'', [(''R2'', 10)]),
      (''R3'', [(''R2'', 2)])]"

definition example_table :: routing_table where
  "example_table =
     [(''R2'', [(''R1'', 3), (''R3'', 2)]),
      (''R3'', [(''R1'', 1), (''R3'', 0), (''R2'', 999)]),
      (''R1'', [(''R1'', 0), (''R3'', 1), (''R2'', 999)])]"

definition example_written :: routing_table where
  "example_written =
     [(''R2'', [(''R1'', 3), (''R3'', 2), (''R2'', 0)]),
      (''R3'', [(''R1'', 1), (''R3'', 0), (''R2'', 2)]),
      (''R1'', [(''R1'', 0), (''R3'', 1), (''R2'', 10)]),
      (''H2'', [(''R1'', 999), (''R2'', 1)])]"

definition example_merged :: routing_table where
  "example_merged =
     [(''R2'', [(''R1'', 3), (''R3'', 2), (''R2'', 0)]),
      (''R3'', [(''R1'', 1), (''R3'', 0), (''R2'', 2)]),
      (''R1'', [(''R1'', 0), (''R3'', 1), (''R2'', 10)]),
      (''H2'', [(''R1'', 4), (''R2'', 1), (''R3'', 999)])]"

definition example_own_vector :: routing_table where
  \<comment> \<open>a vector whose sender carries the name of the receiving router \<open>R1\<close>\<close>
  "example_own_vector = [(''R2'', [(''R1'', 50)])]"

definition example_own_merged :: routing_table where
  "example_own_merged =
     [(''R2'', [(''R1'', 50), (''R3'', 999)]),
      (''R3'', [(''R1'', 999), (''R2'', 999)]),
      (''R1'', [(''R1'', 999), (''R2'', 999), (''R3'', 999)])]"

text \<open>
  Router \<open>R3\<close>, whose cost table lists the neighbor \<open>R2\<close> before the neighbor \<open>R1\<close>,
  after it has merged their vectors: both reach host \<open>H9\<close> at cost 2. Router
  \<open>example_neighbor_router\<close> is \<open>R1\<close> with the host \<open>H1\<close> on a link of cost 10 and a path
  of cost 2 to it through \<open>R2\<close>.
\<close>

definition example_router :: Router where
  "example_router =
     \<lparr>name = ''R3'',
      intf_L = [Interface_init 0, Interface_init 0],
      cost_D = [(''R2'', [(0, 1)]), (''R1'', [(1, 1)])],
      rt_tbl_D = [(''R2'', [(''R3'', 1), (''R2'', 0), (''R1'', 999)]),
                  (''R1'', [(''R3'', 1), (''R2'', 999), (''R1'', 0)]),
                  (''R3'', [(''R3'', 0), (''R2'', 1), (''R1'', 1)]),
                  (''H9'', [(''R3'', 3), (''R2'', 2), (''R1'', 2)])]\<rparr>"

definition example_neighbor_router :: Router where
  "example_neighbor_router =
     \<lparr>name = ''R1'',
      intf_L = [Interface_init 0, Interface_init 0],
      cost_D = [(''H1'', [(0, 10)]), (''R2'', [(1, 1)])],
      rt_tbl_D = [(''H1'', [(''R1'', 2), (''R2'', 1)]),
                  (''R2'', [(''R1'', 1), (''R2'', 0)]),
                  (''R1'', [(''R1'', 0), (''R2'', 1)])]\<rparr>"

definition example_data_packet :: "string \<Rightarrow> NetworkPacket" where
  "example_data_packet d = \<lparr>dst = d, prot_S = ''data'', data_S = ''x''\<rparr>"

text \<open>
  Router \<open>R1\<close> of the first example with two unbounded interfaces and a given table,
  and a Control packet from \<open>R2\<close>. \<open>example_loads\<close>, \<open>example_dumps\<close> and
  \<open>example_iter\<close> stand for \<^verbatim>\<open>json.loads\<close>, \<^verbatim>\<open>json.dumps\<close> and the iteration order of the
  key set on this input.
\<close>

definition example_R1 :: "routing_table \<Rightarrow> Router" where
  "example_R1 tbl =
     \<lparr>name = ''R1'', intf_L = [Interface_init 0, Interface_init 0],
      cost_D = example_costs, rt_tbl_D = tbl\<rparr>"

definition example_control_packet :: NetworkPacket where
  "example_control_packet = \<lparr>dst = ''0'', prot_S = ''control'', data_S = ''R2{}''\<rparr>"

definition example_loads :: "string \<Rightarrow> error + routing_table" where
  "example_loads s = (if s = ''{}'' then Inr example_vector_R2 else Inl JSONDecodeError)"

definition example_dumps :: "routing_table \<Rightarrow> string" where
  "example_dumps tbl = ''{}''"

definition example_iter :: "string list \<Rightarrow> string list" where
  "example_iter ks = [''R2'', ''R3'', ''R1'', ''H2'']"

definition example_bad_tag_router :: Router where
  \<comment> \<open>the first interface holds a packet with tag 9, the second a Data packet\<close>
  "example_bad_tag_router =
     example_neighbor_router
       \<lparr>intf_L := [\<lparr>in_queue = [''000H19x''], out_queue = [], maxsize = 0\<rparr>,
                   \<lparr>in_queue = [''000H11x''], out_queue = [], maxsize = 0\<rparr>]\<rparr>"

definition example_short_packet_router :: Router where
  \<comment> \<open>the first interface holds a Data packet, the second a packet of four bytes\<close>
  "example_short_packet_router =
     example_neighbor_router
       \<lparr>intf_L := [\<lparr>in_queue = [''000H11x''], out_queue = [], maxsize = 0\<rparr>,
                   \<lparr>in_queue = [''0001''], out_queue = [], maxsize = 0\<rparr>]\<rparr>"

section \<open>Lemmas on the containers\<close>

lemma getitem_Inr [simp]: "getitem d k = Inr v \<longleftrightarrow> map_of d k = Some v"
  by (simp add: getitem_def split: option.splits)

lemma getitem_Inl [simp]: "getitem d k = Inl e \<longleftrightarrow> map_of d k = None \<and> e = KeyError"
  by (auto simp: getitem_def split: option.splits)

lemma in_keys_iff: "k \<in> set (keys d) \<longleftrightarrow> map_of d k \<noteq> None"
  by (simp add: keys_def map_of_eq_None_iff)

lemma keys_update: "set (keys (AList.update k v d)) = insert k (set (keys d))"
  using AList.dom_update [of k v d] by (simp add: keys_def)

lemma cost_entry_update:
  "cost_entry (AList.update y row tbl) d w = (if d = y then map_of row w else cost_entry tbl d w)"
  by (simp add: cost_entry_def AList.update_conv')

lemma for_each_append:
  "for_each f (xs @ ys) s =
     (case for_each f xs s of Inl e \<Rightarrow> Inl e | Inr s' \<Rightarrow> for_each f ys s')"
  by (induction xs arbitrary: s) (auto split: sum.splits)

lemma for_each_map: "for_each f (map g xs) s = for_each (\<lambda>x. f (g x)) xs s"
  by (induction xs arbitrary: s) (auto split: sum.splits)

lemma for_each_product:
  "for_each (\<lambda>(y, v). f y v) (List.product ys vs) s = for_each (\<lambda>y. for_each (f y) vs) ys s"
  by (induction ys arbitrary: s) (auto simp: for_each_append for_each_map split: sum.splits)

lemma list_all_update:
  "list_all P al \<Longrightarrow> P (k, v) \<Longrightarrow> list_all P (AList.update k v al)"
  by (induction al) auto

lemma list_all_map_of:
  "list_all P al \<Longrightarrow> map_of al k = Some v \<Longrightarrow> P (k, v)"
  by (auto simp: list_all_iff dest: map_of_SomeD)

lemma for_each_invariant:
  assumes "for_each f xs s = Inr s'" and "P s"
    and "\<And>x a b. x \<in> set xs \<Longrightarrow> P a \<Longrightarrow> f x a = Inr b \<Longrightarrow> P b"
  shows "P s'"
  using assms
proof (induction xs arbitrary: s)
  case Nil
  then show ?case by simp
next
  case (Cons x xs)
  from Cons.prems(1) obtain a where a: "f x s = Inr a" and l: "for_each f xs a = Inr s'"
    by (auto split: sum.splits)
  have "P a" using Cons.prems(3) [OF _ Cons.prems(2) a] by simp
  show ?case
    by (rule Cons.IH [OF l \<open>P a\<close>]) (use Cons.prems(3) in auto)
qed

lemma for_each_total:
  assumes "P s"
    and "\<And>x a. x \<in> set xs \<Longrightarrow> P a \<Longrightarrow> \<exists>b. f x a = Inr b \<and> P b"
  shows "\<exists>s'. for_each f xs s = Inr s' \<and> P s'"
  using assms
proof (induction xs arbitrary: s)
  case Nil
  then show ?case by simp
next
  case (Cons x xs)
  from Cons.prems(2) [OF _ Cons.prems(1), of x] obtain b where b: "f x s = Inr b" "P b" by auto
  from Cons.IH [OF b(2)] Cons.prems(2) obtain s' where "for_each f xs b = Inr s'" "P s'"
    by auto
  with b show ?case by simp
qed

section \<open>The two loops of a routing update\<close>

lemma store_vector_entries:
  assumes "store_vector own r d (rvec, tbl) = Inr (rvec', tbl')"
  shows "\<exists>c. cost_entry rvec' d r = Some c \<and>
             (if d \<in> set (keys rvec) then rvec' = rvec
              else rvec' = AList.update d [(r, 999)] rvec) \<and>
             set (keys tbl') = insert d (set (keys tbl)) \<and>
             (\<forall>x w. cost_entry tbl' x w =
                (if x = d \<and> w = r then Some c
                 else if x = d \<and> d \<notin> set (keys tbl) then (if w = own then Some 999 else None)
                 else cost_entry tbl x w))"
  using assms
  apply (simp add: store_vector_def Let_def split: sum.splits if_splits)
   apply (auto simp: cost_entry_update cost_entry_def AList.update_conv' keys_update in_keys_iff
      split: option.splits if_splits)
  done

lemma store_vector_self:
  assumes "store_vector own r d (rvec, tbl) = Inr (rvec', tbl')" and "r \<noteq> own"
  shows "cost_or_inf tbl' x own = cost_or_inf tbl x own"
proof -
  from store_vector_entries [OF assms(1)] obtain c where
    e: "\<And>x w. cost_entry tbl' x w =
                (if x = d \<and> w = r then Some c
                 else if x = d \<and> d \<notin> set (keys tbl) then (if w = own then Some 999 else None)
                 else cost_entry tbl x w)" by blast
  have n: "d \<notin> set (keys tbl) \<Longrightarrow> cost_entry tbl d own = None"
    by (simp add: in_keys_iff cost_entry_def)
  have "cost_entry tbl' x own =
          (if x = d \<and> d \<notin> set (keys tbl) then Some 999 else cost_entry tbl x own)"
    using assms(2) by (simp add: e)
  then show ?thesis
    using n by (simp add: cost_or_inf_def)
qed

lemma store_loop_self:
  "for_each (store_vector own r) ks (rvec, tbl) = Inr (rvec', tbl') \<Longrightarrow> r \<noteq> own
     \<Longrightarrow> cost_or_inf tbl' x own = cost_or_inf tbl x own"
proof (induction ks arbitrary: rvec tbl)
  case Nil
  then show ?case by simp
next
  case (Cons k ks)
  from Cons.prems(1) obtain rv1 t1 where
    s: "store_vector own r k (rvec, tbl) = Inr (rv1, t1)"
    and l: "for_each (store_vector own r) ks (rv1, t1) = Inr (rvec', tbl')"
    by (auto split: sum.splits)
  show ?case
    using Cons.IH [OF l Cons.prems(2)] store_vector_self [OF s Cons.prems(2)] by simp
qed

lemma bellman_ford_same: "bellman_ford own y y acc = Inr acc"
  by (simp add: bellman_ford_def split: prod.splits)

lemma bellman_ford_entries:
  assumes "bellman_ford own y v (tbl, u) = Inr (tbl', u')" and "v \<noteq> y"
  shows "\<exists>a. cost_entry tbl v own = Some a \<and>
             (cost_entry tbl y own \<noteq> None \<or> v = own) \<and>
             u' = (u \<or> a + cost_or_inf tbl y v < cost_or_inf tbl y own) \<and>
             set (keys tbl') = set (keys tbl) \<and>
             (\<forall>d w. cost_entry tbl' d w =
                (if d = y \<and> w = own \<and> a + cost_or_inf tbl y v < cost_or_inf tbl y own
                 then Some (a + cost_or_inf tbl y v)
                 else if d = y \<and> w = v \<and> cost_entry tbl y v = None then Some 999
                 else cost_entry tbl d w))"
  using assms
  apply (simp add: bellman_ford_def Let_def in_keys_iff split: sum.splits if_splits)
     apply (auto simp: cost_entry_update cost_entry_def cost_or_inf_def AList.update_conv'
      keys_update in_keys_iff split: option.splits if_splits)
  done

lemma bellman_ford_self:
  assumes "bellman_ford own y v (tbl, u) = Inr (tbl', u')" and "v \<noteq> y"
  shows "cost_or_inf tbl' d own =
           (if d = y
            then min (cost_or_inf tbl y own) (cost_or_inf tbl v own + cost_or_inf tbl y v)
            else cost_or_inf tbl d own)"
    and "u' = (u \<or> cost_or_inf tbl' y own < cost_or_inf tbl y own)"
proof -
  define b where "b = cost_or_inf tbl y v"
  define c where "c = cost_or_inf tbl y own"
  from bellman_ford_entries [OF assms] obtain a where
    a: "cost_entry tbl v own = Some a"
    and s: "cost_entry tbl y own \<noteq> None \<or> v = own"
    and u: "u' = (u \<or> a + b < c)"
    and e: "\<And>d w. cost_entry tbl' d w =
                (if d = y \<and> w = own \<and> a + b < c then Some (a + b)
                 else if d = y \<and> w = v \<and> cost_entry tbl y v = None then Some 999
                 else cost_entry tbl d w)"
    unfolding b_def c_def by blast
  have va: "cost_or_inf tbl v own = a" using a by (simp add: cost_or_inf_def)
  have other: "cost_or_inf tbl' d own = cost_or_inf tbl d own" if "d \<noteq> y" for d
    using that by (simp add: cost_or_inf_def e)
  have c999: "c = 999" if "cost_entry tbl y own = None"
    using that by (simp add: c_def cost_or_inf_def)
  have cS: "c = k" if "cost_entry tbl y own = Some k" for k
    using that by (simp add: c_def cost_or_inf_def)
  have here: "cost_or_inf tbl' y own = min c (a + b)"
  proof (cases "a + b < c")
    case True
    then show ?thesis by (simp add: cost_or_inf_def e)
  next
    case False
    then have "cost_entry tbl' y own =
        (if own = v \<and> cost_entry tbl y v = None then Some 999 else cost_entry tbl y own)"
      by (simp add: e)
    then have "cost_or_inf tbl' y own = c"
      using c999 cS by (cases "cost_entry tbl y own") (auto simp: cost_or_inf_def)
    with False show ?thesis by simp
  qed
  show "cost_or_inf tbl' d own =
           (if d = y
            then min (cost_or_inf tbl y own) (cost_or_inf tbl v own + cost_or_inf tbl y v)
            else cost_or_inf tbl d own)"
    using other here by (simp add: va b_def c_def)
  show "u' = (u \<or> cost_or_inf tbl' y own < cost_or_inf tbl y own)"
    unfolding u here by (auto simp: c_def)
qed

lemma bellman_ford_mono:
  assumes "bellman_ford own y v (tbl, u) = Inr (tbl', u')"
  shows "cost_or_inf tbl' d own \<le> cost_or_inf tbl d own"
    and "d \<noteq> y \<Longrightarrow> cost_or_inf tbl' d own = cost_or_inf tbl d own"
    and "u' = (u \<or> cost_or_inf tbl' y own < cost_or_inf tbl y own)"
proof -
  show "cost_or_inf tbl' d own \<le> cost_or_inf tbl d own"
    using assms bellman_ford_self(1) [OF assms, of d]
    by (cases "v = y") (auto simp: bellman_ford_same)
  show "d \<noteq> y \<Longrightarrow> cost_or_inf tbl' d own = cost_or_inf tbl d own"
    using assms bellman_ford_self(1) [OF assms, of d]
    by (cases "v = y") (auto simp: bellman_ford_same)
  show "u' = (u \<or> cost_or_inf tbl' y own < cost_or_inf tbl y own)"
    using assms bellman_ford_self(2) [OF assms]
    by (cases "v = y") (auto simp: bellman_ford_same)
qed

lemma inner_loop_self:
  "for_each (bellman_ford own y) vs (tbl, u) = Inr (tbl', u') \<Longrightarrow>
     (\<forall>d. cost_or_inf tbl' d own \<le> cost_or_inf tbl d own) \<and>
     (\<forall>d. d \<noteq> y \<longrightarrow> cost_or_inf tbl' d own = cost_or_inf tbl d own) \<and>
     (u' = (u \<or> cost_or_inf tbl' y own < cost_or_inf tbl y own))"
proof (induction vs arbitrary: tbl u)
  case Nil
  then show ?case by simp
next
  case (Cons v vs)
  from Cons.prems obtain t1 u1 where
    s: "bellman_ford own y v (tbl, u) = Inr (t1, u1)"
    and l: "for_each (bellman_ford own y) vs (t1, u1) = Inr (tbl', u')"
    by (auto split: sum.splits)
  note m = bellman_ford_mono [OF s]
  from Cons.IH [OF l] have
    i1: "\<And>d. cost_or_inf tbl' d own \<le> cost_or_inf t1 d own"
    and i2: "\<And>d. d \<noteq> y \<Longrightarrow> cost_or_inf tbl' d own = cost_or_inf t1 d own"
    and i3: "u' = (u1 \<or> cost_or_inf tbl' y own < cost_or_inf t1 y own)" by blast+
  have 1: "\<forall>d. cost_or_inf tbl' d own \<le> cost_or_inf tbl d own"
    using i1 m(1) by (meson order_trans)
  have 2: "\<forall>d. d \<noteq> y \<longrightarrow> cost_or_inf tbl' d own = cost_or_inf tbl d own"
    using i2 m(2) by simp
  have 3: "u' = (u \<or> cost_or_inf tbl' y own < cost_or_inf tbl y own)"
    using i1 [of y] i3 m(1) [of y] m(3) by auto
  from 1 2 3 show ?case by blast
qed

lemma relax_all_self:
  "relax_all own ys vs (tbl, u) = Inr (tbl', u') \<Longrightarrow>
     (\<forall>d. cost_or_inf tbl' d own \<le> cost_or_inf tbl d own) \<and>
     (\<forall>d. d \<notin> set ys \<longrightarrow> cost_or_inf tbl' d own = cost_or_inf tbl d own) \<and>
     (u' = (u \<or> (\<exists>y \<in> set ys. cost_or_inf tbl' y own < cost_or_inf tbl y own)))"
proof (induction ys arbitrary: tbl u)
  case Nil
  then show ?case by (simp add: relax_all_def)
next
  case (Cons y ys)
  from Cons.prems obtain t1 u1 where
    s: "for_each (bellman_ford own y) vs (tbl, u) = Inr (t1, u1)"
    and l: "relax_all own ys vs (t1, u1) = Inr (tbl', u')"
    by (auto simp: relax_all_def split: sum.splits)
  from inner_loop_self [OF s] have
    m1: "\<And>d. cost_or_inf t1 d own \<le> cost_or_inf tbl d own"
    and m2: "\<And>d. d \<noteq> y \<Longrightarrow> cost_or_inf t1 d own = cost_or_inf tbl d own"
    and m3: "u1 = (u \<or> cost_or_inf t1 y own < cost_or_inf tbl y own)" by blast+
  from Cons.IH [OF l] have
    i1: "\<And>d. cost_or_inf tbl' d own \<le> cost_or_inf t1 d own"
    and i2: "\<And>d. d \<notin> set ys \<Longrightarrow> cost_or_inf tbl' d own = cost_or_inf t1 d own"
    and i3: "u' = (u1 \<or> (\<exists>y \<in> set ys. cost_or_inf tbl' y own < cost_or_inf t1 y own))"
    by blast+
  have 1: "\<forall>d. cost_or_inf tbl' d own \<le> cost_or_inf tbl d own"
    using i1 m1 by (meson order_trans)
  have 2: "\<forall>d. d \<notin> set (y # ys) \<longrightarrow> cost_or_inf tbl' d own = cost_or_inf tbl d own"
    using i2 m2 by simp
  have 3: "u' = (u \<or> (\<exists>z \<in> set (y # ys). cost_or_inf tbl' z own < cost_or_inf tbl z own))"
  proof (cases u)
    case True
    then show ?thesis using i3 m3 by simp
  next
    case False
    show ?thesis
    proof
      assume u'
      then consider "cost_or_inf t1 y own < cost_or_inf tbl y own"
        | z where "z \<in> set ys" "cost_or_inf tbl' z own < cost_or_inf t1 z own"
        using i3 m3 False by blast
      then show "u \<or> (\<exists>z \<in> set (y # ys). cost_or_inf tbl' z own < cost_or_inf tbl z own)"
      proof cases
        case 1
        with i1 [of y] show ?thesis by force
      next
        case 2
        with m1 [of z] show ?thesis by force
      qed
    next
      assume "u \<or> (\<exists>z \<in> set (y # ys). cost_or_inf tbl' z own < cost_or_inf tbl z own)"
      then obtain z where
        z: "z \<in> set (y # ys)" "cost_or_inf tbl' z own < cost_or_inf tbl z own"
        using False by blast
      show u'
      proof (cases "z \<in> set ys")
        case True
        show ?thesis
        proof (cases "cost_or_inf tbl' z own < cost_or_inf t1 z own")
          case True
          with \<open>z \<in> set ys\<close> i3 show ?thesis by blast
        next
          case False
          then have lt: "cost_or_inf t1 z own < cost_or_inf tbl z own" using z(2) by simp
          then have "z = y" using m2 [of z] by force
          then show ?thesis using i3 m3 lt by simp
        qed
      next
        case False
        then have zy: "z = y" using z(1) by simp
        have "cost_or_inf tbl' y own = cost_or_inf t1 y own" using i2 [of y] False zy by simp
        then show ?thesis using z(2) zy i3 m3 by simp
      qed
    qed
  qed
  from 1 2 3 show ?case by blast
qed

subsection \<open>Invariants of the two loops\<close>

lemma nonneg_entry:
  "nonneg_table tbl \<Longrightarrow> cost_entry tbl d v = Some c \<Longrightarrow> 0 \<le> c"
  by (auto simp: nonneg_table_def nonneg_row_def cost_entry_def split: option.splits
      dest!: list_all_map_of)

lemma nonneg_cost_or_inf: "nonneg_table tbl \<Longrightarrow> 0 \<le> cost_or_inf tbl d v"
  using nonneg_entry [of tbl d v] by (auto simp: cost_or_inf_def split: option.splits)

lemma nonneg_row_of: "nonneg_table tbl \<Longrightarrow> map_of tbl d = Some row \<Longrightarrow> nonneg_row row"
  by (auto simp: nonneg_table_def dest!: list_all_map_of)

lemma nonneg_row_update: "nonneg_row row \<Longrightarrow> 0 \<le> c \<Longrightarrow> nonneg_row (AList.update v c row)"
  by (simp add: nonneg_row_def list_all_update)

lemma nonneg_table_update:
  "nonneg_table tbl \<Longrightarrow> nonneg_row row \<Longrightarrow> nonneg_table (AList.update d row tbl)"
  by (simp add: nonneg_table_def list_all_update)

lemma store_vector_nonneg:
  assumes "store_vector own r d (rvec, tbl) = Inr (rvec', tbl')"
    and "nonneg_table rvec" and "nonneg_table tbl"
  shows "nonneg_table rvec' \<and> nonneg_table tbl'"
proof -
  define rvec1 where "rvec1 = (if d \<notin> set (keys rvec) then AList.update d [(r, 999)] rvec else rvec)"
  define tbl1 where "tbl1 = (if d \<notin> set (keys tbl) then AList.update d [(own, 999)] tbl else tbl)"
  have r1: "nonneg_table rvec1"
    using assms(2) by (simp add: rvec1_def nonneg_table_update nonneg_row_def)
  have t1: "nonneg_table tbl1"
    using assms(3) by (simp add: tbl1_def nonneg_table_update nonneg_row_def)
  from assms(1) obtain rrow c trow where
    g: "map_of rvec1 d = Some rrow" "map_of rrow r = Some c" "map_of tbl1 d = Some trow"
    and res: "rvec' = rvec1" "tbl' = AList.update d (AList.update r c trow) tbl1"
    unfolding store_vector_def rvec1_def [symmetric] tbl1_def [symmetric]
    by (auto simp: Let_def rvec1_def [symmetric] tbl1_def [symmetric] split: sum.splits)
  have "0 \<le> c" using nonneg_row_of [OF r1 g(1)] g(2)
    by (auto simp: nonneg_row_def dest!: list_all_map_of)
  moreover have "nonneg_row trow" by (rule nonneg_row_of [OF t1 g(3)])
  ultimately show ?thesis
    using r1 t1 res by (simp add: nonneg_table_update nonneg_row_update)
qed

lemma nonneg_row_entry: "nonneg_row row \<Longrightarrow> map_of row k = Some c \<Longrightarrow> 0 \<le> c"
  by (auto simp: nonneg_row_def dest!: list_all_map_of)

lemma bellman_ford_nonneg:
  assumes "bellman_ford own y v (tbl, u) = Inr (tbl', u')" and "nonneg_table tbl"
  shows "nonneg_table tbl'"
proof (cases "v = y")
  case True
  with assms show ?thesis by (simp add: bellman_ford_same)
next
  case False
  from assms(1) False obtain ycvec0 where y0: "map_of tbl y = Some ycvec0"
    by (auto simp: bellman_ford_def split: sum.splits)
  have n0: "nonneg_row ycvec0" by (rule nonneg_row_of [OF assms(2) y0])
  have n1: "nonneg_row (AList.update v 999 ycvec0)" using n0 by (simp add: nonneg_row_update)
  have sum: "0 \<le> a + b" if "map_of tbl v = Some vcvec" "map_of vcvec own = Some a"
    "map_of ycvec v = Some b" "nonneg_row ycvec" for vcvec ycvec a b
    using nonneg_row_entry [OF nonneg_row_of [OF assms(2) that(1)] that(2)]
      nonneg_row_entry [OF that(4) that(3)] by simp
  show ?thesis
    using assms False y0 n0 n1 sum [of _ _ ycvec0] sum [of _ _ "AList.update v 999 ycvec0"]
    by (auto simp: bellman_ford_def Let_def AList.update_conv' nonneg_table_update
        nonneg_row_update split: sum.splits if_splits)
qed

lemma nonneg_row_Nil: "nonneg_row []"
  by (simp add: nonneg_row_def)

lemma init_row_nonneg:
  "nonneg_row ifs \<Longrightarrow> nonneg_row row \<Longrightarrow>
     nonneg_row (fold (\<lambda>(k, v) row. AList.update nm v row) ifs row)"
  by (induction ifs arbitrary: row) (auto simp: nonneg_row_def list_all_update)

lemma init_rows_nonneg:
  "nonneg_table costs \<Longrightarrow>
     nonneg_table (map (\<lambda>(neighbor, ifs).
               (neighbor, fold (\<lambda>(k, v) row. AList.update nm v row) ifs [])) costs)"
  by (induction costs) (auto simp: nonneg_table_def init_row_nonneg nonneg_row_Nil)

lemma init_nonneg:
  "nonneg_table costs \<Longrightarrow> nonneg_table (rt_tbl_D (Router_init nm costs m))"
  by (simp add: Router_init_def nonneg_table_update init_rows_nonneg nonneg_row_def)

lemma init_self_zero: "cost_entry (rt_tbl_D (Router_init nm costs m)) nm nm = Some 0"
  by (simp add: Router_init_def cost_entry_update)

lemma store_vector_zero:
  assumes "store_vector own r d (rvec, tbl) = Inr (rvec', tbl')" and "r \<noteq> own"
    and "cost_entry tbl own own = Some 0"
  shows "cost_entry tbl' own own = Some 0"
proof -
  have "own \<in> set (keys tbl)"
    using assms(3) by (auto simp: in_keys_iff cost_entry_def split: option.splits)
  with store_vector_entries [OF assms(1)] assms(2,3) show ?thesis by auto
qed

lemma bellman_ford_zero:
  assumes "bellman_ford own y v (tbl, u) = Inr (tbl', u')" and "nonneg_table tbl"
    and "cost_entry tbl own own = Some 0"
  shows "cost_entry tbl' own own = Some 0"
proof (cases "v = y")
  case True
  with assms show ?thesis by (simp add: bellman_ford_same)
next
  case False
  from bellman_ford_entries [OF assms(1) False] obtain a where
    a: "cost_entry tbl v own = Some a"
    and e: "\<And>d w. cost_entry tbl' d w =
                (if d = y \<and> w = own \<and> a + cost_or_inf tbl y v < cost_or_inf tbl y own
                 then Some (a + cost_or_inf tbl y v)
                 else if d = y \<and> w = v \<and> cost_entry tbl y v = None then Some 999
                 else cost_entry tbl d w)" by blast
  have "0 \<le> a" by (rule nonneg_entry [OF assms(2) a])
  moreover have "0 \<le> cost_or_inf tbl y v" by (rule nonneg_cost_or_inf [OF assms(2)])
  moreover have "cost_or_inf tbl own own = 0" using assms(3) by (simp add: cost_or_inf_def)
  ultimately show ?thesis using e [of own own] False assms(3) by auto
qed

lemma store_loop_invariant:
  assumes "for_each (store_vector own r) ks (rvec, tbl) = Inr (rvec1, tbl1)" and "r \<noteq> own"
    and "nonneg_table rvec" and "nonneg_table tbl" and "cost_entry tbl own own = Some 0"
  shows "nonneg_table tbl1 \<and> cost_entry tbl1 own own = Some 0"
proof -
  define P where "P = (\<lambda>s :: routing_table \<times> routing_table.
    nonneg_table (fst s) \<and> nonneg_table (snd s) \<and> cost_entry (snd s) own own = Some 0)"
  have "P (rvec1, tbl1)"
  proof (rule for_each_invariant [where P = P, OF assms(1)])
    show "P (rvec, tbl)" using assms(3-5) by (simp add: P_def)
  next
    fix d a b
    assume "P a" and s: "store_vector own r d a = Inr b"
    then show "P b"
      using store_vector_nonneg [of own r d "fst a" "snd a" "fst b" "snd b"]
        store_vector_zero [of own r d "fst a" "snd a" "fst b" "snd b"] assms(2)
      by (simp add: P_def)
  qed
  then show ?thesis by (simp add: P_def)
qed

lemma relax_all_invariant:
  assumes "relax_all own ks vs (tbl, u) = Inr (tbl', u')"
    and "nonneg_table tbl" and "cost_entry tbl own own = Some 0"
  shows "nonneg_table tbl' \<and> cost_entry tbl' own own = Some 0"
proof -
  define Q where "Q = (\<lambda>s :: routing_table \<times> bool.
    nonneg_table (fst s) \<and> cost_entry (fst s) own own = Some 0)"
  have step: "Q b" if "Q a" "bellman_ford own y v a = Inr b" for y v a b
    using that bellman_ford_nonneg [of own y v "fst a" "snd a" "fst b" "snd b"]
      bellman_ford_zero [of own y v "fst a" "snd a" "fst b" "snd b"]
    by (simp add: Q_def)
  have inner: "Q b" if "Q a" "for_each (bellman_ford own y) vs a = Inr b" for y a b
    by (rule for_each_invariant [where P = Q, OF that(2) that(1)]) (rule step)
  have "Q (tbl', u')"
  proof (rule for_each_invariant [where P = Q, OF assms(1) [unfolded relax_all_def]])
    show "Q (tbl, u)" using assms(2,3) by (simp add: Q_def)
  qed (rule inner)
  then show ?thesis by (simp add: Q_def)
qed


lemma has_self_row: "has_self own tbl \<Longrightarrow> map_of tbl d = Some row \<Longrightarrow> own \<in> set (keys row)"
  by (auto simp: has_self_def dest!: list_all_map_of)

lemma has_self_update:
  "has_self own tbl \<Longrightarrow> own \<in> set (keys row) \<Longrightarrow> has_self own (AList.update d row tbl)"
  by (simp add: has_self_def list_all_update)

lemma has_self_entry:
  assumes "has_self own tbl" and "d \<in> set (keys tbl)"
  shows "\<exists>c. cost_entry tbl d own = Some c"
proof -
  from assms(2) obtain row where r: "map_of tbl d = Some row" by (auto simp: in_keys_iff)
  from has_self_row [OF assms(1) r] obtain c where "map_of row own = Some c"
    by (auto simp: in_keys_iff)
  with r show ?thesis by (simp add: cost_entry_def)
qed

lemma init_row_has_self:
  "ifs \<noteq> [] \<or> nm \<in> set (keys row) \<Longrightarrow>
     nm \<in> set (keys (fold (\<lambda>(k, v) row. AList.update nm v row) ifs row))"
  by (induction ifs arbitrary: row) (auto simp: keys_update)

lemma init_rows_has_self:
  "has_interfaces costs \<Longrightarrow>
     has_self nm (map (\<lambda>(neighbor, ifs).
               (neighbor, fold (\<lambda>(k, v) row. AList.update nm v row) ifs [])) costs)"
  by (induction costs) (auto simp: has_self_def has_interfaces_def init_row_has_self)

lemma init_has_self:
  "has_interfaces costs \<Longrightarrow> has_self nm (rt_tbl_D (Router_init nm costs m))"
  by (simp add: Router_init_def has_self_update init_rows_has_self keys_def)

lemma store_vector_has_self:
  assumes "store_vector own r d (rvec, tbl) = Inr (rvec', tbl')" and "has_self own tbl"
  shows "has_self own tbl'"
proof -
  have new: "has_self own (AList.update d [(own, 999)] tbl)"
    using assms(2) by (simp add: has_self_update keys_def)
  have row: "own \<in> set (keys (AList.update r c trow))"
    if "map_of t d = Some trow" "has_self own t" for t trow c
    using has_self_row [OF that(2) that(1)] by (simp add: keys_update)
  show ?thesis
    using assms new row [of tbl] row [of "AList.update d [(own, 999)] tbl"]
    by (auto simp: store_vector_def Let_def has_self_update split: sum.splits if_splits)
qed

lemma store_vector_keys:
  assumes "store_vector own r d (rvec, tbl) = Inr (rvec', tbl')"
  shows "set (keys tbl') = insert d (set (keys tbl))"
  using store_vector_entries [OF assms] by blast

lemma store_loop_has_self:
  assumes "for_each (store_vector own r) ks (rvec, tbl) = Inr (rvec1, tbl1)"
    and "has_self own tbl"
  shows "has_self own tbl1"
proof -
  define P where "P = (\<lambda>s :: routing_table \<times> routing_table. has_self own (snd s))"
  have "P (rvec1, tbl1)"
  proof (rule for_each_invariant [where P = P, OF assms(1)])
    show "P (rvec, tbl)" using assms(2) by (simp add: P_def)
  next
    fix d a b
    assume "P a" and "store_vector own r d a = Inr b"
    then show "P b"
      using store_vector_has_self [of own r d "fst a" "snd a" "fst b" "snd b"]
      by (simp add: P_def)
  qed
  then show ?thesis by (simp add: P_def)
qed

lemma store_loop_keys:
  "for_each (store_vector own r) ks (rvec, tbl) = Inr (rvec1, tbl1)
     \<Longrightarrow> set (keys tbl1) = set (keys tbl) \<union> set ks"
proof (induction ks arbitrary: rvec tbl)
  case Nil
  then show ?case by simp
next
  case (Cons k ks)
  from Cons.prems obtain rv t where
    s: "store_vector own r k (rvec, tbl) = Inr (rv, t)"
    and l: "for_each (store_vector own r) ks (rv, t) = Inr (rvec1, tbl1)"
    by (auto split: sum.splits)
  show ?case using Cons.IH [OF l] store_vector_keys [OF s] by auto
qed

lemma bellman_ford_total:
  assumes "has_self own tbl" and "y \<in> set (keys tbl)" and "v \<in> set (keys tbl)"
  shows "\<exists>tbl' u'. bellman_ford own y v (tbl, u) = Inr (tbl', u') \<and> has_self own tbl'
           \<and> set (keys tbl') = set (keys tbl)"
proof (cases "v = y")
  case True
  with assms show ?thesis by (simp add: bellman_ford_same)
next
  case False
  from assms(2) obtain ycvec0 where y0: "map_of tbl y = Some ycvec0"
    by (auto simp: in_keys_iff)
  from assms(3) obtain vcvec where v0: "map_of tbl v = Some vcvec"
    by (auto simp: in_keys_iff)
  define ycvec where
    "ycvec = (if v \<notin> set (keys ycvec0) then AList.update v 999 ycvec0 else ycvec0)"
  from has_self_row [OF assms(1) v0] obtain a where a: "map_of vcvec own = Some a"
    by (auto simp: in_keys_iff)
  have "v \<in> set (keys ycvec)" by (simp add: ycvec_def keys_update)
  then obtain b where b: "map_of ycvec v = Some b" by (auto simp: in_keys_iff)
  have yo: "own \<in> set (keys ycvec)"
    using has_self_row [OF assms(1) y0] by (simp add: ycvec_def keys_update)
  then obtain c where c: "map_of ycvec own = Some c" by (auto simp: in_keys_iff)
  have v1: "map_of (AList.update y ycvec tbl) v = Some vcvec"
    using False v0 by (simp add: AList.update_conv')
  have res: "bellman_ford own y v (tbl, u) =
      (if a + b < c then Inr (AList.update y (AList.update own (a + b) ycvec)
                                (AList.update y ycvec tbl), True)
       else Inr (AList.update y ycvec tbl, u))"
    using False y0 v1 a b c
    by (simp add: bellman_ford_def Let_def ycvec_def [symmetric] getitem_def)
  have h1: "has_self own (AList.update y ycvec tbl)"
    using assms(1) yo by (rule has_self_update)
  have h2: "has_self own (AList.update y (AList.update own (a + b) ycvec)
                                (AList.update y ycvec tbl))"
    using h1 by (rule has_self_update) (simp add: keys_update)
  show ?thesis
    using res h1 h2 assms(2) by (auto simp: keys_update)
qed

lemma bellman_ford_has_self:
  assumes "bellman_ford own y v (tbl, u) = Inr (tbl', u')" and "has_self own tbl"
  shows "has_self own tbl'"
proof (cases "v = y")
  case True
  with assms show ?thesis by (simp add: bellman_ford_same)
next
  case False
  from bellman_ford_entries [OF assms(1) False] obtain a where
    "cost_entry tbl v own = Some a" by blast
  then have v: "v \<in> set (keys tbl)"
    by (auto simp: cost_entry_def in_keys_iff split: option.splits)
  from assms(1) False have y: "y \<in> set (keys tbl)"
    by (auto simp: bellman_ford_def in_keys_iff split: sum.splits)
  from bellman_ford_total [OF assms(2) y v, of u] assms(1) show ?thesis by auto
qed

lemma relax_all_has_self:
  assumes "relax_all own ks vs (tbl, u) = Inr (tbl', u')" and "has_self own tbl"
  shows "has_self own tbl'"
proof -
  define Q where "Q = (\<lambda>s :: routing_table \<times> bool. has_self own (fst s))"
  have step: "Q b" if "Q a" "bellman_ford own y v a = Inr b" for y v a b
    using that bellman_ford_has_self [of own y v "fst a" "snd a" "fst b" "snd b"]
    by (simp add: Q_def)
  have inner: "Q b" if "Q a" "for_each (bellman_ford own y) vs a = Inr b" for y a b
    by (rule for_each_invariant [where P = Q, OF that(2) that(1)]) (rule step)
  have "Q (tbl', u')"
  proof (rule for_each_invariant [where P = Q, OF assms(1) [unfolded relax_all_def]])
    show "Q (tbl, u)" using assms(2) by (simp add: Q_def)
  qed (rule inner)
  then show ?thesis by (simp add: Q_def)
qed

lemma relax_all_total:
  assumes "has_self own tbl" and "set ks \<subseteq> set (keys tbl)" and "set vs \<subseteq> set (keys tbl)"
  shows "\<exists>tbl' u'. relax_all own ks vs (tbl, u) = Inr (tbl', u')"
proof -
  define K where "K = set (keys tbl)"
  define Q where "Q = (\<lambda>s :: routing_table \<times> bool. has_self own (fst s) \<and> set (keys (fst s)) = K)"
  have step: "\<exists>b. bellman_ford own y v a = Inr b \<and> Q b" if "Q a" "y \<in> K" "v \<in> K" for y v a
    using that bellman_ford_total [of own "fst a" y v "snd a"] by (auto simp: Q_def)
  have inner: "\<exists>b. for_each (bellman_ford own y) vs a = Inr b \<and> Q b" if "Q a" "y \<in> K" for y a
  proof (rule for_each_total [where P = Q, OF that(1)])
    fix v s
    assume "v \<in> set vs" "Q s"
    then show "\<exists>b. bellman_ford own y v s = Inr b \<and> Q b"
      using step [of s y v] that(2) assms(3) by (auto simp: K_def)
  qed
  have "\<exists>b. for_each (\<lambda>y. for_each (bellman_ford own y) vs) ks (tbl, u) = Inr b \<and> Q b"
  proof (rule for_each_total [where P = Q])
    show "Q (tbl, u)" using assms(1) by (simp add: Q_def K_def)
  next
    fix y s
    assume "y \<in> set ks" "Q s"
    then show "\<exists>b. for_each (bellman_ford own y) vs s = Inr b \<and> Q b"
      using inner [of s y] assms(2) by (auto simp: K_def)
  qed
  then show ?thesis by (auto simp: relax_all_def)
qed


section \<open>Forwarding\<close>

lemma send_on_effect:
  "send_on rt j byte_S =
     (if full (maxsize (intf_L rt ! j)) (out_queue (intf_L rt ! j)) then Inl Blocked
      else Inr (rt\<lparr>intf_L := (intf_L rt)[j := with_packet byte_S (intf_L rt ! j)]\<rparr>))"
  by (simp add: send_on_def put_def with_packet_def)

lemma transmit_effect:
  assumes "prot_S p = ''data''"
    and "map_of (cost_D rt) cfwd = Some ((out, c) # ifs)"
    and "index (intf_L rt) out = Inr j"
  shows "transmit rt p cfwd =
     (if full (maxsize (intf_L rt ! j)) (out_queue (intf_L rt ! j)) then Inl Blocked
      else Inr (rt\<lparr>intf_L := (intf_L rt)
                  [j := with_packet (zfill (dst p) dst_S_length @ ''1'' @ data_S p)
                          (intf_L rt ! j)]\<rparr>))"
  using assms by (simp add: transmit_def getitem_def keys_def to_byte_S_def send_on_effect)


lemma next_hop_step_via:
  "next_hop_step rt d v (w, k) =
     (case via_cost rt d v of
        None \<Rightarrow> Inl KeyError
      | Some c \<Rightarrow> if c < k then Inr (v, c) else Inr (w, k))"
  by (auto simp: next_hop_step_def via_cost_def cost_entry_def getitem_def Let_def
      split: option.splits)

lemma first_cheapest_here:
  "via_cost rt d v = Some c \<Longrightarrow> at_least rt d c vs \<Longrightarrow> first_cheapest rt d (v # vs) v c"
  by (simp add: first_cheapest_def at_least_def above_def)

lemma first_cheapest_later:
  "first_cheapest rt d vs w k \<Longrightarrow> via_cost rt d v = Some c \<Longrightarrow> k < c
     \<Longrightarrow> first_cheapest rt d (v # vs) w k"
  by (simp add: first_cheapest_def at_least_def above_def)

lemma at_least_Cons:
  "at_least rt d k vs \<Longrightarrow> via_cost rt d v = Some c \<Longrightarrow> k \<le> c \<Longrightarrow> at_least rt d k (v # vs)"
  by (simp add: at_least_def)

lemma next_hop_loop:
  assumes "\<forall>v \<in> set vs. via_cost rt d v \<noteq> None"
  shows "\<exists>w k. for_each (next_hop_step rt d) vs (w0, k0) = Inr (w, k) \<and>
           ((w = w0 \<and> k = k0 \<and> at_least rt d k0 vs) \<or> (k < k0 \<and> first_cheapest rt d vs w k))"
  using assms
proof (induction vs arbitrary: w0 k0)
  case Nil
  then show ?case by (simp add: at_least_def)
next
  case (Cons v vs)
  from Cons.prems obtain c where c: "via_cost rt d v = Some c" by auto
  have defd: "\<forall>x \<in> set vs. via_cost rt d x \<noteq> None" using Cons.prems by simp
  show ?case
  proof (cases "c < k0")
    case True
    from Cons.IH [OF defd, of v c] obtain w k where
      l: "for_each (next_hop_step rt d) vs (v, c) = Inr (w, k)"
      and r: "(w = v \<and> k = c \<and> at_least rt d c vs) \<or> (k < c \<and> first_cheapest rt d vs w k)"
      by blast
    have run: "for_each (next_hop_step rt d) (v # vs) (w0, k0) = Inr (w, k)"
      using c True l by (simp add: next_hop_step_via)
    from r have "k < k0 \<and> first_cheapest rt d (v # vs) w k"
    proof
      assume "w = v \<and> k = c \<and> at_least rt d c vs"
      then show ?thesis using first_cheapest_here [OF c] True by simp
    next
      assume "k < c \<and> first_cheapest rt d vs w k"
      then show ?thesis using first_cheapest_later [OF _ c] True by simp
    qed
    with run show ?thesis by blast
  next
    case False
    from Cons.IH [OF defd, of w0 k0] obtain w k where
      l: "for_each (next_hop_step rt d) vs (w0, k0) = Inr (w, k)"
      and r: "(w = w0 \<and> k = k0 \<and> at_least rt d k0 vs) \<or> (k < k0 \<and> first_cheapest rt d vs w k)"
      by blast
    have run: "for_each (next_hop_step rt d) (v # vs) (w0, k0) = Inr (w, k)"
      using c False l by (simp add: next_hop_step_via)
    from r have "(w = w0 \<and> k = k0 \<and> at_least rt d k0 (v # vs))
        \<or> (k < k0 \<and> first_cheapest rt d (v # vs) w k)"
    proof
      assume "w = w0 \<and> k = k0 \<and> at_least rt d k0 vs"
      then show ?thesis using at_least_Cons [OF _ c, of k0] False by simp
    next
      assume "k < k0 \<and> first_cheapest rt d vs w k"
      then show ?thesis using first_cheapest_later [OF _ c] False by simp
    qed
    with run show ?thesis by blast
  qed
qed

lemma at_least_not_below:
  "at_least rt d k vs \<Longrightarrow> v \<in> set vs \<Longrightarrow> via_cost rt d v = Some c \<Longrightarrow> k \<le> c"
  by (auto simp: at_least_def list_all_iff)


section \<open>Sending the table and one pass over the interfaces\<close>

lemma zfill_placeholder: "zfill ''0'' dst_S_length = ''00000''"
  by code_simp

lemma send_routes_effect:
  assumes "j < length (intf_L rt)" and "has_room (intf_L rt ! j)"
  shows "send_routes dumps rt j =
     Inr (rt\<lparr>intf_L := (intf_L rt)
            [j := with_packet (routes_packet dumps (name rt) (rt_tbl_D rt)) (intf_L rt ! j)]\<rparr>)"
  using assms
  by (simp add: send_routes_def Let_def to_byte_S_def zfill_placeholder send_on_effect
      has_room_def routes_packet_def)

lemma update_prefix:
  assumes "k < length L"
  shows "(map f (take k L) @ drop k L)[k := f (L ! k)] = map f (take (Suc k) L) @ drop (Suc k) L"
proof -
  have "drop k L = L ! k # drop (Suc k) L" using assms by (simp add: Cons_nth_drop_Suc)
  moreover have "length (map f (take k L)) = k" using assms by simp
  ultimately show ?thesis
    using assms by (simp add: list_update_append take_Suc_conv_app_nth)
qed

lemma flood_prefix:
  assumes "list_all has_room (intf_L rt)" and "k \<le> length (intf_L rt)"
  shows "for_each (\<lambda>j rt'. send_routes dumps rt' j) [0..<k] rt =
     Inr (rt\<lparr>intf_L := map (with_packet (routes_packet dumps (name rt) (rt_tbl_D rt)))
                         (take k (intf_L rt)) @ drop k (intf_L rt)\<rparr>)"
  using assms(2)
proof (induction k)
  case 0
  then show ?case by simp
next
  case (Suc k)
  define pk where "pk = routes_packet dumps (name rt) (rt_tbl_D rt)"
  define mid where "mid = rt\<lparr>intf_L := map (with_packet pk) (take k (intf_L rt)) @ drop k (intf_L rt)\<rparr>"
  have k: "k < length (intf_L rt)" using Suc.prems by simp
  have ih: "for_each (\<lambda>j rt'. send_routes dumps rt' j) [0..<k] rt = Inr mid"
    using Suc.IH k by (simp add: mid_def pk_def)
  have nth: "intf_L mid ! k = intf_L rt ! k"
    using k by (simp add: mid_def nth_append)
  have room: "has_room (intf_L mid ! k)"
    using assms(1) k nth by (simp add: list_all_length)
  have len: "k < length (intf_L mid)" using k by (simp add: mid_def)
  have "send_routes dumps mid k =
      Inr (mid\<lparr>intf_L := (intf_L mid)[k := with_packet pk (intf_L mid ! k)]\<rparr>)"
    using send_routes_effect [OF len room, of dumps] by (simp add: mid_def pk_def)
  also have "(intf_L mid)[k := with_packet pk (intf_L mid ! k)] =
      map (with_packet pk) (take (Suc k) (intf_L rt)) @ drop (Suc k) (intf_L rt)"
    unfolding nth using update_prefix [OF k, of "with_packet pk"] by (simp add: mid_def)
  finally have step: "send_routes dumps mid k =
      Inr (rt\<lparr>intf_L := map (with_packet pk) (take (Suc k) (intf_L rt)) @ drop (Suc k) (intf_L rt)\<rparr>)"
    by (simp add: mid_def)
  show ?case
    using ih step by (simp add: for_each_append pk_def)
qed

lemma flood_all:
  assumes "list_all has_room (intf_L rt)"
  shows "for_each (\<lambda>j rt'. send_routes dumps rt' j) [0..<length (intf_L rt)] rt =
     Inr (rt\<lparr>intf_L := map (with_packet (routes_packet dumps (name rt) (rt_tbl_D rt))) (intf_L rt)\<rparr>)"
  using flood_prefix [OF assms, of "length (intf_L rt)" dumps] by simp


lemma send_on_length: "send_on rt j byte_S = Inr rt' \<Longrightarrow> length (intf_L rt') = length (intf_L rt)"
  by (auto simp: send_on_effect split: if_splits)

lemma transmit_length: "transmit rt p cfwd = Inr rt' \<Longrightarrow> length (intf_L rt') = length (intf_L rt)"
  by (auto simp: transmit_def getitem_def dest: send_on_length split: sum.splits list.splits option.splits)

lemma forward_packet_length:
  "forward_packet rt p i = Inr rt' \<Longrightarrow> length (intf_L rt') = length (intf_L rt)"
  by (auto simp: forward_packet_def dest: transmit_length split: sum.splits)

lemma send_routes_length:
  "send_routes dumps rt j = Inr rt' \<Longrightarrow> length (intf_L rt') = length (intf_L rt)"
  by (auto simp: send_routes_def Let_def dest: send_on_length split: sum.splits if_splits)

lemma flood_length:
  assumes "for_each (\<lambda>j rt'. send_routes dumps rt' j) js rt = Inr rt'"
  shows "length (intf_L rt') = length (intf_L rt)"
  by (rule for_each_invariant [where P = "\<lambda>s. length (intf_L s) = length (intf_L rt)", OF assms])
    (auto dest: send_routes_length)

lemma update_routes_length:
  assumes "update_routes loads dumps iter rt p i = Inr rt'"
  shows "length (intf_L rt') = length (intf_L rt)"
proof -
  from assms obtain tbl' updated where
    r: "(if updated
         then for_each (\<lambda>j rt'. send_routes dumps rt' j)
                [0..<length (intf_L (rt\<lparr>rt_tbl_D := tbl'\<rparr>))] (rt\<lparr>rt_tbl_D := tbl'\<rparr>)
         else Inr (rt\<lparr>rt_tbl_D := tbl'\<rparr>)) = Inr rt'"
    by (auto simp: update_routes_def Let_def split: sum.splits prod.splits)
  show ?thesis
  proof (cases updated)
    case True
    with r flood_length [of dumps _ "rt\<lparr>rt_tbl_D := tbl'\<rparr>" rt'] show ?thesis by simp
  next
    case False
    with r show ?thesis by auto
  qed
qed

lemma process_interface_length:
  assumes "process_interface loads dumps iter i rt = Inr rt'"
  shows "length (intf_L rt') = length (intf_L rt)"
  using assms
  by (auto simp: process_interface_def Let_def
      dest!: forward_packet_length update_routes_length
      split: if_splits prod.splits option.splits sum.splits)

lemma pass_length:
  assumes "for_each (process_interface loads dumps iter) js rt = Inr rt'"
  shows "length (intf_L rt') = length (intf_L rt)"
  by (rule for_each_invariant [where P = "\<lambda>s. length (intf_L s) = length (intf_L rt)", OF assms])
    (auto dest: process_interface_length)

lemma process_interface_bad_tag:
  assumes "i < length (intf_L rt)" and "in_queue (intf_L rt ! i) = pkt_S # rest"
    and "take prot_S_length (drop dst_S_length pkt_S) \<noteq> ''1''"
    and "take prot_S_length (drop dst_S_length pkt_S) \<noteq> ''2''"
  shows "process_interface loads dumps iter i rt = Inl TypeError"
  using assms by (simp add: process_interface_def get_def from_byte_S_def Let_def)


section \<open>The codec on addresses without a zero at either end\<close>

text \<open>
  The padding of \<^verbatim>\<open>to_byte_S\<close> and the stripping of \<^verbatim>\<open>from_byte_S\<close> cancel for an address
  of at most five characters that neither starts nor ends with \<open>0\<close> and does not start
  with a sign.
\<close>

lemma strip_padded:
  assumes "a \<noteq> []" and "hd a \<noteq> c" and "last a \<noteq> c"
  shows "strip c (replicate n c @ a) = a"
proof -
  have 1: "dropWhile (\<lambda>x. x = c) (replicate n c @ a) = a"
    using assms(1,2) by (induction n) (auto simp: neq_Nil_conv)
  have "hd (rev a) \<noteq> c" using assms(1,3) by (simp add: hd_rev)
  then have 2: "dropWhile (\<lambda>x. x = c) (rev a) = rev a"
    using assms(1) by (cases "rev a") auto
  show ?thesis by (simp add: strip_def 1 2)
qed

lemma round_trip_without_boundary_zeros:
  assumes "a \<noteq> []" and "length a \<le> dst_S_length"
    and "hd a \<noteq> CHR ''0''" and "hd a \<noteq> CHR ''+''" and "hd a \<noteq> CHR ''-''"
    and "last a \<noteq> CHR ''0''"
    and "t = ''data'' \<or> t = ''control''"
  shows "\<exists>byte_S. to_byte_S \<lparr>dst = a, prot_S = t, data_S = payload\<rparr> = Inr byte_S
           \<and> from_byte_S byte_S = Inr \<lparr>dst = a, prot_S = t, data_S = payload\<rparr>"
proof -
  define n where "n = dst_S_length - length a"
  have z: "zfill a dst_S_length = replicate n CHR ''0'' @ a"
    using assms(1,2,4,5) by (cases a) (auto simp: zfill_def n_def)
  have len: "length (replicate n CHR ''0'' @ a) = dst_S_length"
    using assms(2) by (simp add: n_def)
  have s: "strip CHR ''0'' (replicate n CHR ''0'' @ a) = a"
    by (rule strip_padded [OF assms(1,3,6)])
  have f: "from_byte_S ((replicate n CHR ''0'' @ a) @ tag # payload) =
      (if [tag] = ''1'' then Inr \<lparr>dst = a, prot_S = ''data'', data_S = payload\<rparr>
       else if [tag] = ''2'' then Inr \<lparr>dst = a, prot_S = ''control'', data_S = payload\<rparr>
       else Inl TypeError)" for tag
    using len s by (simp add: from_byte_S_def prot_S_length_def Let_def del: append_assoc)
  from assms(7) show ?thesis
  proof
    assume "t = ''data''"
    then show ?thesis using f [of "CHR ''1''"] by (simp add: to_byte_S_def z)
  next
    assume "t = ''control''"
    then show ?thesis using f [of "CHR ''2''"] by (simp add: to_byte_S_def z)
  qed
qed

section \<open>The example, evaluated\<close>

lemma example_first_merge:
  "merge ''R1'' ''R3'' example_vector_R3 [''R2'', ''R3'', ''R1'']
      (rt_tbl_D (Router_init ''R1'' example_costs 0)) = Inr (example_table, True)"
  by code_simp

lemma example_store:
  "for_each (store_vector ''R1'' ''R2'') [''R2'', ''R3'', ''R1'', ''H2'']
      (example_vector_R2, example_table) = Inr (example_vector_R2, example_written)"
  by code_simp

lemma example_second_merge:
  "merge ''R1'' ''R2'' example_vector_R2 [''R2'', ''R3'', ''R1'', ''H2''] example_table
     = Inr (example_merged, True)"
  by code_simp

lemma example_own_merge:
  "merge ''R1'' ''R1'' example_own_vector [''R2'', ''R3'', ''R1'']
      (rt_tbl_D (Router_init ''R1'' example_costs 0)) = Inr (example_own_merged, False)"
  by code_simp

lemma example_router_reached:
  "merge ''R3'' ''R2'' [(''R2'', [(''R2'', 0)]), (''R3'', [(''R2'', 1)]), (''H9'', [(''R2'', 2)])]
      [''R2'', ''R1'', ''R3'', ''H9'']
      (rt_tbl_D (Router_init ''R3'' (cost_D example_router) 0))
     = Inr ([(''R2'', [(''R3'', 1), (''R2'', 0), (''R1'', 999)]),
             (''R1'', [(''R3'', 1), (''R2'', 999)]),
             (''R3'', [(''R3'', 0), (''R2'', 1), (''R1'', 999)]),
             (''H9'', [(''R3'', 3), (''R2'', 2), (''R1'', 999)])], True)
   \<and> merge ''R3'' ''R1'' [(''R1'', [(''R1'', 0)]), (''R3'', [(''R1'', 1)]), (''H9'', [(''R1'', 2)])]
      [''R2'', ''R1'', ''R3'', ''H9'']
      [(''R2'', [(''R3'', 1), (''R2'', 0), (''R1'', 999)]),
       (''R1'', [(''R3'', 1), (''R2'', 999)]),
       (''R3'', [(''R3'', 0), (''R2'', 1), (''R1'', 999)]),
       (''H9'', [(''R3'', 3), (''R2'', 2), (''R1'', 999)])]
     = Inr (rt_tbl_D example_router, False)"
  by code_simp

lemma example_neighbor_router_reached:
  "merge ''R1'' ''R2'' [(''H1'', [(''R2'', 1)]), (''R2'', [(''R2'', 0)]), (''R1'', [(''R2'', 1)])]
      [''H1'', ''R2'', ''R1'']
      (rt_tbl_D (Router_init ''R1'' (cost_D example_neighbor_router) 0))
     = Inr (rt_tbl_D example_neighbor_router, True)"
  by code_simp

lemma example_third_merge:
  "merge ''R1'' ''R2'' example_vector_R2 [''R2'', ''R3'', ''R1'', ''H2''] example_merged
     = Inr (example_merged, False)"
  by code_simp

section \<open>Properties\<close>

subsection \<open>The relaxation of a routing update\<close>

text \<open>
  C1, as the specification words it: after the vector has been stored, the self-cost of a
  destination \<open>y\<close> becomes the minimum of its old value and, over the neighbouring
  routers \<open>v\<close>, of \<open>linkCost[v] + table[v][y]\<close>. The code does not compute that.
  Router \<open>R1\<close> has learnt through \<open>R3\<close> a path of cost 3 to \<open>R2\<close>, cheaper than the
  direct link of cost 10. When \<open>R2\<close> announces host \<open>H2\<close> at cost 1, the update sets the
  self-cost of \<open>H2\<close> to \<open>3 + 1 = 4\<close>. The formula of the specification gives 999 (no row
  \<open>table[R2]\<close> has a column \<open>H2\<close>), and 11 with the two indices exchanged.
\<close>

theorem relaxation_formula_counterexample:
  "merge ''R1'' ''R3'' example_vector_R3 [''R2'', ''R3'', ''R1'']
      (rt_tbl_D (Router_init ''R1'' example_costs 0)) = Inr (example_table, True)
   \<and> for_each (store_vector ''R1'' ''R2'') [''R2'', ''R3'', ''R1'', ''H2'']
        (example_vector_R2, example_table) = Inr (example_vector_R2, example_written)
   \<and> merge ''R1'' ''R2'' example_vector_R2 [''R2'', ''R3'', ''R1'', ''H2''] example_table
        = Inr (example_merged, True)
   \<and> cost_or_inf example_merged ''H2'' ''R1'' = 4
   \<and> min (cost_or_inf example_written ''H2'' ''R1'')
        (min (link_cost example_costs ''R2'' + cost_or_inf example_written ''R2'' ''H2'')
             (link_cost example_costs ''R3'' + cost_or_inf example_written ''R3'' ''H2'')) = 999
   \<and> min (cost_or_inf example_written ''H2'' ''R1'')
        (min (link_cost example_costs ''R2'' + cost_or_inf example_written ''H2'' ''R2'')
             (link_cost example_costs ''R3'' + cost_or_inf example_written ''H2'' ''R3'')) = 11"
  by code_simp

text \<open>
  C1, amended. Once the first loop has stored the received vector (giving \<open>tbl1\<close>), the
  update runs one relaxation step for every key \<open>y\<close> of the two tables and every key
  \<open>v\<close> that starts with \<open>R\<close>, in the iteration order \<open>ks\<close>. A step with \<open>v = y\<close> does
  nothing. Any other step that returns sets
  \<open>table[y][own] = min(table[y][own], table[v][own] + table[y][v])\<close>, an absent
  \<open>table[y][v]\<close> counting as 999, leaves every other self-cost alone and raises the flag
  exactly when the self-cost of \<open>y\<close> went down. The flag the update ends with is true
  exactly when some destination has a self-cost strictly below the one it had in \<open>tbl1\<close>.
\<close>

theorem merge_relaxation:
  assumes "for_each (store_vector own r) ks (rvec, tbl) = Inr (rvec1, tbl1)"
  shows "merge own r rvec ks tbl =
           for_each (\<lambda>(y, v). bellman_ford own y v)
             (List.product ks (filter (\<lambda>key. startswith key ''R'') ks)) (tbl1, False)
         \<and> (\<forall>y v t u t' u'. bellman_ford own y v (t, u) = Inr (t', u') \<longrightarrow>
               (if v = y then t' = t \<and> u' = u
                else cost_or_inf t' y own =
                       min (cost_or_inf t y own) (cost_or_inf t v own + cost_or_inf t y v)
                     \<and> (\<forall>d. d \<noteq> y \<longrightarrow> cost_or_inf t' d own = cost_or_inf t d own)
                     \<and> u' = (u \<or> cost_or_inf t' y own < cost_or_inf t y own)))
         \<and> (\<forall>tbl2 changed. merge own r rvec ks tbl = Inr (tbl2, changed) \<longrightarrow>
               changed = (\<exists>y \<in> set ks. cost_or_inf tbl2 y own < cost_or_inf tbl1 y own))"
proof (intro conjI allI impI)
  show "merge own r rvec ks tbl =
           for_each (\<lambda>(y, v). bellman_ford own y v)
             (List.product ks (filter (\<lambda>key. startswith key ''R'') ks)) (tbl1, False)"
    using assms by (simp add: merge_def relax_all_def for_each_product)
next
  fix y v t u t' u'
  assume s: "bellman_ford own y v (t, u) = Inr (t', u')"
  show "if v = y then t' = t \<and> u' = u
        else cost_or_inf t' y own =
               min (cost_or_inf t y own) (cost_or_inf t v own + cost_or_inf t y v)
             \<and> (\<forall>d. d \<noteq> y \<longrightarrow> cost_or_inf t' d own = cost_or_inf t d own)
             \<and> u' = (u \<or> cost_or_inf t' y own < cost_or_inf t y own)"
  proof (cases "v = y")
    case True
    with s show ?thesis by (simp add: bellman_ford_same)
  next
    case False
    with bellman_ford_self [OF s False] show ?thesis by simp
  qed
next
  fix tbl2 changed
  assume "merge own r rvec ks tbl = Inr (tbl2, changed)"
  with assms have "relax_all own ks (filter (\<lambda>key. startswith key ''R'') ks) (tbl1, False)
      = Inr (tbl2, changed)"
    by (simp add: merge_def)
  from relax_all_self [OF this]
  show "changed = (\<exists>y \<in> set ks. cost_or_inf tbl2 y own < cost_or_inf tbl1 y own)" by simp
qed

theorem merge_relaxation_witness:
  "for_each (store_vector ''R1'' ''R2'') [''R2'', ''R3'', ''R1'', ''H2'']
        (example_vector_R2, example_table) = Inr (example_vector_R2, example_written)
   \<and> bellman_ford ''R1'' ''H2'' ''R2'' (example_written, False)
        = Inr (AList.update ''H2'' [(''R1'', 4), (''R2'', 1)] example_written, True)
   \<and> cost_or_inf (AList.update ''H2'' [(''R1'', 4), (''R2'', 1)] example_written) ''H2'' ''R1''
        = min (cost_or_inf example_written ''H2'' ''R1'')
              (cost_or_inf example_written ''R2'' ''R1'' + cost_or_inf example_written ''H2'' ''R2'')
   \<and> merge ''R1'' ''R2'' example_vector_R2 [''R2'', ''R3'', ''R1'', ''H2''] example_table
        = Inr (example_merged, True)
   \<and> (\<exists>y \<in> set [''R2'', ''R3'', ''R1'', ''H2''].
         cost_or_inf example_merged y ''R1'' < cost_or_inf example_written y ''R1'')"
proof -
  have s: "bellman_ford ''R1'' ''H2'' ''R2'' (example_written, False)
        = Inr (AList.update ''H2'' [(''R1'', 4), (''R2'', 1)] example_written, True)"
    by code_simp
  from merge_relaxation [OF example_store] s example_second_merge show ?thesis
    using example_store by fastforce
qed

subsection \<open>Self-costs never rise\<close>

text \<open>
  C4, as stated, for the vector of any sender: it fails when the sender's name is the
  receiver's own. The first loop then overwrites the self-costs with the received
  entries, or with 999 where the vector has none: \<open>R1\<close>, holding cost 10 to \<open>R2\<close>,
  merges a vector sent under the name \<open>R1\<close> and ends with cost 50.
\<close>

theorem own_vector_raises_self_cost_counterexample:
  "merge ''R1'' ''R1'' example_own_vector [''R2'', ''R3'', ''R1'']
      (rt_tbl_D (Router_init ''R1'' example_costs 0)) = Inr (example_own_merged, False)
   \<and> cost_or_inf (rt_tbl_D (Router_init ''R1'' example_costs 0)) ''R2'' ''R1'' = 10
   \<and> cost_or_inf example_own_merged ''R2'' ''R1'' = 50"
  by code_simp

text \<open>
  C4, amended: a merge of a vector whose sender is not the router itself never increases
  a self-cost. For every destination \<open>y\<close> the self-cost after the merge is at most the
  one before, an absent entry counting as 999.
\<close>

theorem merge_never_raises_self_cost:
  assumes "r \<noteq> own" and "merge own r rvec ks tbl = Inr (tbl', changed)"
  shows "cost_or_inf tbl' y own \<le> cost_or_inf tbl y own"
proof -
  from assms(2) obtain rvec1 tbl1 where
    w: "for_each (store_vector own r) ks (rvec, tbl) = Inr (rvec1, tbl1)"
    and x: "relax_all own ks (filter (\<lambda>key. startswith key ''R'') ks) (tbl1, False)
              = Inr (tbl', changed)"
    by (auto simp: merge_def split: sum.splits)
  have "cost_or_inf tbl' y own \<le> cost_or_inf tbl1 y own"
    using relax_all_self [OF x] by blast
  also have "cost_or_inf tbl1 y own = cost_or_inf tbl y own"
    by (rule store_loop_self [OF w assms(1)])
  finally show ?thesis .
qed

theorem merge_never_raises_self_cost_witness:
  "''R2'' \<noteq> ''R1''
   \<and> merge ''R1'' ''R2'' example_vector_R2 [''R2'', ''R3'', ''R1'', ''H2''] example_table
        = Inr (example_merged, True)
   \<and> cost_or_inf example_merged ''H2'' ''R1'' \<le> cost_or_inf example_table ''H2'' ''R1''"
proof -
  have n: "''R2'' \<noteq> ''R1''" by simp
  from merge_never_raises_self_cost [OF n example_second_merge, of "''H2''"] n
    example_second_merge
  show ?thesis by simp
qed

subsection \<open>The packet codec\<close>

text \<open>
  C2: the round trip holds for every canonical address. The decoder removes the zeros
  with \<^verbatim>\<open>strip('0')\<close>, which works on both ends of the field, while the encoder pads on
  the left only. The canonical address \<open>10\<close> is encoded as \<open>00010\<close> and decoded as \<open>1\<close>.
\<close>

theorem round_trip_loses_trailing_zero:
  "to_byte_S \<lparr>dst = ''10'', prot_S = ''data'', data_S = ''hi''\<rparr> = Inr ''000101hi''
   \<and> from_byte_S ''000101hi'' = Inr \<lparr>dst = ''1'', prot_S = ''data'', data_S = ''hi''\<rparr>"
  by code_simp

subsection \<open>The cost of the router to itself\<close>

text \<open>
  C3, as stated, for every merge: it fails for a vector sent under the router's own
  name. The first loop stores the received column into the column of the sender, here
  the router's own, and a destination the vector does not list gets 999. \<open>R1\<close> merges
  such a vector, whose costs are all non-negative, and its cost to itself is 999.
\<close>

theorem own_vector_breaks_self_cost_counterexample:
  "nonneg_table example_costs \<and> nonneg_table example_own_vector
   \<and> cost_entry (rt_tbl_D (Router_init ''R1'' example_costs 0)) ''R1'' ''R1'' = Some 0
   \<and> merge ''R1'' ''R1'' example_own_vector [''R2'', ''R3'', ''R1'']
        (rt_tbl_D (Router_init ''R1'' example_costs 0)) = Inr (example_own_merged, False)
   \<and> cost_entry example_own_merged ''R1'' ''R1'' = Some 999"
  by code_simp

text \<open>
  C3, amended: \<open>table[R][R]\<close> is 0 after construction, and it is 0 after every merge of
  a vector whose sender is not \<open>R\<close> itself, provided the link costs and the received
  costs are non-negative. The invariant that carries the proof has a second half, which
  construction establishes and every such merge keeps: no cost in the table is negative.
\<close>

theorem self_cost_invariant:
  "cost_entry (rt_tbl_D (Router_init nm costs m)) nm nm = Some 0
   \<and> (nonneg_table costs \<longrightarrow> nonneg_table (rt_tbl_D (Router_init nm costs m)))
   \<and> (r \<noteq> own \<and> nonneg_table rvec \<and> nonneg_table tbl \<and> cost_entry tbl own own = Some 0
        \<and> merge own r rvec ks tbl = Inr (tbl', changed)
      \<longrightarrow> cost_entry tbl' own own = Some 0 \<and> nonneg_table tbl')"
proof (intro conjI impI)
  show "cost_entry (rt_tbl_D (Router_init nm costs m)) nm nm = Some 0"
    by (rule init_self_zero)
  show "nonneg_table (rt_tbl_D (Router_init nm costs m))" if "nonneg_table costs"
    using that by (rule init_nonneg)
next
  assume h: "r \<noteq> own \<and> nonneg_table rvec \<and> nonneg_table tbl \<and> cost_entry tbl own own = Some 0
        \<and> merge own r rvec ks tbl = Inr (tbl', changed)"
  then obtain rvec1 tbl1 where
    w: "for_each (store_vector own r) ks (rvec, tbl) = Inr (rvec1, tbl1)"
    and x: "relax_all own ks (filter (\<lambda>key. startswith key ''R'') ks) (tbl1, False)
              = Inr (tbl', changed)"
    by (auto simp: merge_def split: sum.splits)
  from store_loop_invariant [OF w] h have "nonneg_table tbl1 \<and> cost_entry tbl1 own own = Some 0"
    by simp
  with relax_all_invariant [OF x]
  show "cost_entry tbl' own own = Some 0" and "nonneg_table tbl'" by simp_all
qed

theorem self_cost_invariant_witness:
  "cost_entry (rt_tbl_D (Router_init ''R1'' example_costs 0)) ''R1'' ''R1'' = Some 0
   \<and> nonneg_table example_costs
   \<and> nonneg_table (rt_tbl_D (Router_init ''R1'' example_costs 0))
   \<and> ''R2'' \<noteq> ''R1'' \<and> nonneg_table example_vector_R2 \<and> nonneg_table example_table
   \<and> cost_entry example_table ''R1'' ''R1'' = Some 0
   \<and> merge ''R1'' ''R2'' example_vector_R2 [''R2'', ''R3'', ''R1'', ''H2''] example_table
        = Inr (example_merged, True)
   \<and> cost_entry example_merged ''R1'' ''R1'' = Some 0 \<and> nonneg_table example_merged"
proof -
  have c: "nonneg_table example_costs" by code_simp
  have n: "''R2'' \<noteq> ''R1''" by simp
  have v: "nonneg_table example_vector_R2" by code_simp
  have t: "nonneg_table example_table" by code_simp
  have z: "cost_entry example_table ''R1'' ''R1'' = Some 0" by code_simp
  from self_cost_invariant [of "''R1''" example_costs 0 "''R2''" "''R1''" example_vector_R2
      example_table "[''R2'', ''R3'', ''R1'', ''H2'']" example_merged True]
    c n v t z example_second_merge
  show ?thesis by simp
qed

subsection \<open>Every row has the column of the owning router\<close>

text \<open>
  C10, as stated, for every construction: it fails for a cost table in which a neighbor
  has no interface. The comprehension that builds the row of a neighbor writes the own
  column once per interface, so the row of such a neighbor is empty.
\<close>

theorem neighbor_without_interface_counterexample:
  "rt_tbl_D (Router_init ''R1'' [(''H1'', [])] 0) = [(''H1'', []), (''R1'', [(''R1'', 0)])]
   \<and> ''H1'' \<in> set (keys (rt_tbl_D (Router_init ''R1'' [(''H1'', [])] 0)))
   \<and> cost_entry (rt_tbl_D (Router_init ''R1'' [(''H1'', [])] 0)) ''H1'' ''R1'' = None"
  by code_simp

text \<open>
  C10, amended: every row of the routing table has an entry under the owning router's
  id, after construction from a cost table in which every neighbor has at least one
  interface, and after every merge of a table that had the property. With the
  property, once the first loop has stored the vector the relaxation finds every key
  it reads, so the merge returns; and \<open>table[d][own]\<close> is defined for every
  destination \<open>d\<close> of the table, which is what forwarding reads.
\<close>

theorem rows_keep_own_entry:
  "(has_interfaces costs \<longrightarrow> has_self nm (rt_tbl_D (Router_init nm costs m)))
   \<and> (has_self own tbl \<and> merge own r rvec ks tbl = Inr (tbl', changed) \<longrightarrow> has_self own tbl')
   \<and> (has_self own tbl \<and> for_each (store_vector own r) ks (rvec, tbl) = Inr (rvec1, tbl1)
        \<longrightarrow> (\<exists>t c. merge own r rvec ks tbl = Inr (t, c)))
   \<and> (has_self own tbl \<and> d \<in> set (keys tbl) \<longrightarrow> (\<exists>c. cost_entry tbl d own = Some c))"
proof (intro conjI impI)
  show "has_self nm (rt_tbl_D (Router_init nm costs m))" if "has_interfaces costs"
    using that by (rule init_has_self)
next
  assume h: "has_self own tbl \<and> merge own r rvec ks tbl = Inr (tbl', changed)"
  then obtain rv t where
    w: "for_each (store_vector own r) ks (rvec, tbl) = Inr (rv, t)"
    and x: "relax_all own ks (filter (\<lambda>key. startswith key ''R'') ks) (t, False)
              = Inr (tbl', changed)"
    by (auto simp: merge_def split: sum.splits)
  from store_loop_has_self [OF w] h have "has_self own t" by simp
  then show "has_self own tbl'" by (rule relax_all_has_self [OF x])
next
  assume h: "has_self own tbl \<and> for_each (store_vector own r) ks (rvec, tbl) = Inr (rvec1, tbl1)"
  then have w: "for_each (store_vector own r) ks (rvec, tbl) = Inr (rvec1, tbl1)" by simp
  have s: "has_self own tbl1" using store_loop_has_self [OF w] h by simp
  have k: "set ks \<subseteq> set (keys tbl1)" using store_loop_keys [OF w] by simp
  then have k': "set (filter (\<lambda>key. startswith key ''R'') ks) \<subseteq> set (keys tbl1)" by auto
  from relax_all_total [OF s k k', of False] w
  show "\<exists>t c. merge own r rvec ks tbl = Inr (t, c)" by (simp add: merge_def)
next
  assume "has_self own tbl \<and> d \<in> set (keys tbl)"
  then show "\<exists>c. cost_entry tbl d own = Some c" using has_self_entry by blast
qed

theorem rows_keep_own_entry_witness:
  "has_interfaces example_costs
   \<and> has_self ''R1'' (rt_tbl_D (Router_init ''R1'' example_costs 0))
   \<and> has_self ''R1'' example_table
   \<and> for_each (store_vector ''R1'' ''R2'') [''R2'', ''R3'', ''R1'', ''H2'']
        (example_vector_R2, example_table) = Inr (example_vector_R2, example_written)
   \<and> merge ''R1'' ''R2'' example_vector_R2 [''R2'', ''R3'', ''R1'', ''H2''] example_table
        = Inr (example_merged, True)
   \<and> has_self ''R1'' example_merged
   \<and> ''H2'' \<in> set (keys example_merged)
   \<and> (\<exists>c. cost_entry example_merged ''H2'' ''R1'' = Some c)"
proof -
  have i: "has_interfaces example_costs" by code_simp
  have t: "has_self ''R1'' example_table" by code_simp
  have k: "''H2'' \<in> set (keys example_merged)" by code_simp
  have a: "has_self ''R1'' (rt_tbl_D (Router_init ''R1'' example_costs 0))"
    using rows_keep_own_entry [of example_costs "''R1''" 0] i by simp
  have b: "has_self ''R1'' example_merged"
    using rows_keep_own_entry [of _ _ _ "''R1''" example_table "''R2''" example_vector_R2
        "[''R2'', ''R3'', ''R1'', ''H2'']" example_merged True] t example_second_merge
    by simp
  have c: "\<exists>c. cost_entry example_merged ''H2'' ''R1'' = Some c"
    using rows_keep_own_entry [of _ _ _ "''R1''" example_merged _ _ _ _ _ _ _ "''H2''"] b k by simp
  from i a t example_store example_second_merge b k c show ?thesis by simp
qed

subsection \<open>Forwarding to a direct neighbor\<close>

text \<open>
  C6: a Data packet whose destination is a key of the cost table goes out on the
  interface attached to that neighbor, the first one the cost table lists for it,
  whatever the routing table holds: no hypothesis mentions it, and the example has a
  path of cost 2 through \<open>R2\<close> beside the direct link of cost 10. The encoded packet is appended to the
  outbound queue of that interface; the put is a blocking one, so with that queue full
  the router waits on that same interface (\<open>Blocked\<close>).
\<close>

theorem neighbor_first:
  assumes "prot_S p = ''data''"
    and "map_of (cost_D rt) (dst p) = Some ((out, c) # ifs)"
    and "index (intf_L rt) out = Inr j"
  shows "forward_packet rt p i =
     (if full (maxsize (intf_L rt ! j)) (out_queue (intf_L rt ! j)) then Inl Blocked
      else Inr (rt\<lparr>intf_L := (intf_L rt)
                    [j := with_packet (zfill (dst p) dst_S_length @ ''1'' @ data_S p)
                            (intf_L rt ! j)]\<rparr>))"
proof -
  have "dst p \<in> set (keys (cost_D rt))" using assms(2) by (simp add: in_keys_iff)
  then have "choose_next_hop rt (dst p) = Inr (dst p)"
    by (simp add: choose_next_hop_def)
  then show ?thesis
    using transmit_effect [OF assms] by (simp add: forward_packet_def)
qed

theorem neighbor_first_witness:
  "prot_S (example_data_packet ''H1'') = ''data''
   \<and> map_of (cost_D example_neighbor_router) (dst (example_data_packet ''H1''))
       = Some ((0, 10) # [])
   \<and> index (intf_L example_neighbor_router) 0 = Inr 0
   \<and> via_cost example_neighbor_router ''H1'' ''R2'' = Some 2
   \<and> forward_packet example_neighbor_router (example_data_packet ''H1'') 0
       = Inr (example_neighbor_router
               \<lparr>intf_L := [with_packet ''000H11x'' (Interface_init 0), Interface_init 0]\<rparr>)"
proof -
  have a: "prot_S (example_data_packet ''H1'') = ''data''" by code_simp
  have b: "map_of (cost_D example_neighbor_router) (dst (example_data_packet ''H1''))
       = Some ((0, 10) # [])" by code_simp
  have c: "index (intf_L example_neighbor_router) 0 = Inr 0" by code_simp
  have d: "via_cost example_neighbor_router ''H1'' ''R2'' = Some 2" by code_simp
  have f: "(if full (maxsize (intf_L example_neighbor_router ! 0))
               (out_queue (intf_L example_neighbor_router ! 0)) then Inl Blocked
      else Inr (example_neighbor_router\<lparr>intf_L := (intf_L example_neighbor_router)
                    [0 := with_packet (zfill (dst (example_data_packet ''H1'')) dst_S_length
                             @ ''1'' @ data_S (example_data_packet ''H1''))
                            (intf_L example_neighbor_router ! 0)]\<rparr>))
     = Inr (example_neighbor_router
               \<lparr>intf_L := [with_packet ''000H11x'' (Interface_init 0), Interface_init 0]\<rparr>)"
    by code_simp
  from neighbor_first [OF a b c, of 0]
  have "forward_packet example_neighbor_router (example_data_packet ''H1'') 0
       = Inr (example_neighbor_router
               \<lparr>intf_L := [with_packet ''000H11x'' (Interface_init 0), Interface_init 0]\<rparr>)"
    unfolding f .
  with a b c d show ?thesis by simp
qed

subsection \<open>Choosing the next hop\<close>

text \<open>
  C7, as stated, with ties broken by ascending router id: the loop of the code keeps
  the first candidate of the lowest cost in the order of the cost table. \<open>R3\<close> lists
  \<open>R2\<close> before \<open>R1\<close>, both lead to \<open>H9\<close> at cost 3, and the packet leaves through
  \<open>R2\<close>, on interface 0, although \<open>R1\<close> is the lower id.
\<close>

theorem tie_follows_cost_table_order_counterexample:
  "neighbor_routers example_router = [''R2'', ''R1'']
   \<and> via_cost example_router ''H9'' ''R2'' = Some 3
   \<and> via_cost example_router ''H9'' ''R1'' = Some 3
   \<and> (''R1'' :: string) < ''R2''
   \<and> choose_next_hop example_router ''H9'' = Inr ''R2''
   \<and> forward_packet example_router (example_data_packet ''H9'') 0
       = Inr (example_router
               \<lparr>intf_L := [with_packet ''000H91x'' (Interface_init 0), Interface_init 0]\<rparr>)"
  by code_simp

text \<open>
  C7, amended. For a Data packet whose destination is not a direct neighbor, when
  \<open>table[destination][v]\<close> and \<open>table[v][own]\<close> are defined for every neighbouring
  router \<open>v\<close> (a key of the cost table that starts with \<open>R\<close>) and some \<open>v\<close> has a sum
  below 999, the next hop is the neighbouring router of the lowest sum, and among
  several of them the first in the order of the cost table. The packet, encoded again,
  is put on the first interface the cost table lists for that router (the put blocks
  while the queue is full).
\<close>

theorem next_hop_selection:
  assumes "prot_S p = ''data''"
    and "dst p \<notin> set (keys (cost_D rt))"
    and "\<forall>v \<in> set (neighbor_routers rt). via_cost rt (dst p) v \<noteq> None"
    and "v \<in> set (neighbor_routers rt)" and "via_cost rt (dst p) v = Some c" and "c < 999"
  shows "\<exists>w k. choose_next_hop rt (dst p) = Inr w
           \<and> first_cheapest rt (dst p) (neighbor_routers rt) w k
           \<and> (\<forall>out lc ifs j. map_of (cost_D rt) w = Some ((out, lc) # ifs) \<longrightarrow>
                 index (intf_L rt) out = Inr j \<longrightarrow>
                 forward_packet rt p i =
                   (if full (maxsize (intf_L rt ! j)) (out_queue (intf_L rt ! j)) then Inl Blocked
                    else Inr (rt\<lparr>intf_L := (intf_L rt)
                           [j := with_packet (zfill (dst p) dst_S_length @ ''1'' @ data_S p)
                                   (intf_L rt ! j)]\<rparr>)))"
proof -
  from next_hop_loop [OF assms(3), of "[]" 999] obtain w k where
    l: "for_each (next_hop_step rt (dst p)) (neighbor_routers rt) ([], 999) = Inr (w, k)"
    and r: "(w = [] \<and> k = 999 \<and> at_least rt (dst p) 999 (neighbor_routers rt))
        \<or> (k < 999 \<and> first_cheapest rt (dst p) (neighbor_routers rt) w k)" by blast
  have "\<not> at_least rt (dst p) 999 (neighbor_routers rt)"
    using at_least_not_below [OF _ assms(4,5), of 999] assms(6) by auto
  with r have fc: "first_cheapest rt (dst p) (neighbor_routers rt) w k" by blast
  have ch: "choose_next_hop rt (dst p) = Inr w"
    using assms(2) l by (simp add: choose_next_hop_def)
  have "forward_packet rt p i =
                   (if full (maxsize (intf_L rt ! j)) (out_queue (intf_L rt ! j)) then Inl Blocked
                    else Inr (rt\<lparr>intf_L := (intf_L rt)
                           [j := with_packet (zfill (dst p) dst_S_length @ ''1'' @ data_S p)
                                   (intf_L rt ! j)]\<rparr>))"
    if "map_of (cost_D rt) w = Some ((out, lc) # ifs)" "index (intf_L rt) out = Inr j"
    for out lc ifs j
    using transmit_effect [OF assms(1) that] ch by (simp add: forward_packet_def)
  with ch fc show ?thesis by blast
qed

theorem next_hop_selection_witness:
  "prot_S (example_data_packet ''H9'') = ''data''
   \<and> dst (example_data_packet ''H9'') \<notin> set (keys (cost_D example_router))
   \<and> neighbor_routers example_router = [''R2'', ''R1'']
   \<and> via_cost example_router (dst (example_data_packet ''H9'')) ''R2'' = Some 3
   \<and> ''R1'' \<in> set (neighbor_routers example_router)
   \<and> via_cost example_router (dst (example_data_packet ''H9'')) ''R1'' = Some 3
   \<and> (\<exists>w k. choose_next_hop example_router (dst (example_data_packet ''H9'')) = Inr w
         \<and> first_cheapest example_router (dst (example_data_packet ''H9''))
              (neighbor_routers example_router) w k
         \<and> w = ''R2'' \<and> map_of (cost_D example_router) w = Some ((0, 1) # [])
         \<and> index (intf_L example_router) 0 = Inr 0
         \<and> forward_packet example_router (example_data_packet ''H9'') 0
             = Inr (example_router
                 \<lparr>intf_L := [with_packet ''000H91x'' (Interface_init 0), Interface_init 0]\<rparr>))"
proof -
  have a: "prot_S (example_data_packet ''H9'') = ''data''" by code_simp
  have b: "dst (example_data_packet ''H9'') \<notin> set (keys (cost_D example_router))"
    by code_simp
  have c: "\<forall>v \<in> set (neighbor_routers example_router).
         via_cost example_router (dst (example_data_packet ''H9'')) v \<noteq> None"
    by code_simp
  have d: "''R1'' \<in> set (neighbor_routers example_router)" by code_simp
  have e: "via_cost example_router (dst (example_data_packet ''H9'')) ''R1'' = Some 3"
    by code_simp
  have f: "(3 :: int) < 999" by simp
  have n: "neighbor_routers example_router = [''R2'', ''R1'']" by code_simp
  have m: "via_cost example_router (dst (example_data_packet ''H9'')) ''R2'' = Some 3"
    by code_simp
  have g: "choose_next_hop example_router (dst (example_data_packet ''H9'')) = Inr ''R2''"
    by code_simp
  have h: "map_of (cost_D example_router) ''R2'' = Some ((0, 1) # [])" by code_simp
  have i: "index (intf_L example_router) 0 = Inr 0" by code_simp
  have j: "forward_packet example_router (example_data_packet ''H9'') 0
             = Inr (example_router
                 \<lparr>intf_L := [with_packet ''000H91x'' (Interface_init 0), Interface_init 0]\<rparr>)"
    by code_simp
  from next_hop_selection [OF a b c d e f, of 0] obtain w k where
    w: "choose_next_hop example_router (dst (example_data_packet ''H9'')) = Inr w"
    and fc: "first_cheapest example_router (dst (example_data_packet ''H9''))
              (neighbor_routers example_router) w k" by blast
  from w g have "w = ''R2''" by simp
  with w fc h i j have "choose_next_hop example_router (dst (example_data_packet ''H9'')) = Inr w
         \<and> first_cheapest example_router (dst (example_data_packet ''H9''))
              (neighbor_routers example_router) w k
         \<and> w = ''R2'' \<and> map_of (cost_D example_router) w = Some ((0, 1) # [])
         \<and> index (intf_L example_router) 0 = Inr 0
         \<and> forward_packet example_router (example_data_packet ''H9'') 0
             = Inr (example_router
                 \<lparr>intf_L := [with_packet ''000H91x'' (Interface_init 0), Interface_init 0]\<rparr>)"
    by simp
  then have "\<exists>w k. choose_next_hop example_router (dst (example_data_packet ''H9'')) = Inr w
         \<and> first_cheapest example_router (dst (example_data_packet ''H9''))
              (neighbor_routers example_router) w k
         \<and> w = ''R2'' \<and> map_of (cost_D example_router) w = Some ((0, 1) # [])
         \<and> index (intf_L example_router) 0 = Inr 0
         \<and> forward_packet example_router (example_data_packet ''H9'') 0
             = Inr (example_router
                 \<lparr>intf_L := [with_packet ''000H91x'' (Interface_init 0), Interface_init 0]\<rparr>)"
    by blast
  with a b n m d e show ?thesis by blast
qed

subsection \<open>A destination without a route\<close>

text \<open>
  C8, as stated: forwarding to a destination that neither table knows does not fail.
  In the code it does: \<^verbatim>\<open>forward_packet\<close> reads \<^verbatim>\<open>self.rt_tbl_D[dst]\<close> for the first
  neighbouring router and the lookup raises \<^verbatim>\<open>KeyError\<close>, which the function does not
  catch (it catches \<^verbatim>\<open>queue.Full\<close> only). No packet is sent.
\<close>

theorem unknown_destination_counterexample:
  "''H7'' \<notin> set (keys (cost_D example_router))
   \<and> ''H7'' \<notin> set (keys (rt_tbl_D example_router))
   \<and> forward_packet example_router (example_data_packet ''H7'') 0 = Inl KeyError"
  by code_simp

text \<open>
  C8, amended: forwarding a Data packet whose destination is absent from both the cost
  table and the routing table raises \<^verbatim>\<open>KeyError\<close> and sends nothing: at the lookup of
  \<^verbatim>\<open>self.rt_tbl_D[dst]\<close> when the router has a neighbouring router, and otherwise at
  \<^verbatim>\<open>self.cost_D['']\<close>, the next hop being still the empty string (unless the empty
  string is itself a key of the cost table).
\<close>

theorem unknown_destination_raises:
  assumes "dst p \<notin> set (keys (cost_D rt))" and "dst p \<notin> set (keys (rt_tbl_D rt))"
    and "neighbor_routers rt \<noteq> [] \<or> [] \<notin> set (keys (cost_D rt))"
  shows "forward_packet rt p i = Inl KeyError"
proof (cases "neighbor_routers rt")
  case Nil
  then have "choose_next_hop rt (dst p) = Inr []"
    using assms(1) by (simp add: choose_next_hop_def)
  moreover have "map_of (cost_D rt) [] = None"
    using assms(3) Nil by (simp add: in_keys_iff)
  ultimately show ?thesis by (simp add: forward_packet_def transmit_def getitem_def)
next
  case (Cons v vs)
  have "map_of (rt_tbl_D rt) (dst p) = None" using assms(2) by (simp add: in_keys_iff)
  then have "next_hop_step rt (dst p) v ([], 999) = Inl KeyError"
    by (simp add: next_hop_step_def getitem_def)
  then have "choose_next_hop rt (dst p) = Inl KeyError"
    using assms(1) Cons by (simp add: choose_next_hop_def)
  then show ?thesis by (simp add: forward_packet_def)
qed

theorem unknown_destination_raises_witness:
  "dst (example_data_packet ''H5'') \<notin> set (keys (cost_D (Router_init ''R1'' [(''H1'', [(0, 1)])] 0)))
   \<and> dst (example_data_packet ''H5'')
        \<notin> set (keys (rt_tbl_D (Router_init ''R1'' [(''H1'', [(0, 1)])] 0)))
   \<and> neighbor_routers (Router_init ''R1'' [(''H1'', [(0, 1)])] 0) = []
   \<and> [] \<notin> set (keys (cost_D (Router_init ''R1'' [(''H1'', [(0, 1)])] 0)))
   \<and> forward_packet (Router_init ''R1'' [(''H1'', [(0, 1)])] 0) (example_data_packet ''H5'') 0
       = Inl KeyError"
proof -
  have a: "dst (example_data_packet ''H5'')
      \<notin> set (keys (cost_D (Router_init ''R1'' [(''H1'', [(0, 1)])] 0)))" by code_simp
  have b: "dst (example_data_packet ''H5'')
      \<notin> set (keys (rt_tbl_D (Router_init ''R1'' [(''H1'', [(0, 1)])] 0)))" by code_simp
  have c: "neighbor_routers (Router_init ''R1'' [(''H1'', [(0, 1)])] 0) = []" by code_simp
  have d: "[] \<notin> set (keys (cost_D (Router_init ''R1'' [(''H1'', [(0, 1)])] 0)))" by code_simp
  from d have e: "neighbor_routers (Router_init ''R1'' [(''H1'', [(0, 1)])] 0) \<noteq> []
      \<or> [] \<notin> set (keys (cost_D (Router_init ''R1'' [(''H1'', [(0, 1)])] 0)))" by simp
  from unknown_destination_raises [OF a b e, of 0] a b c d show ?thesis by simp
qed

subsection \<open>Flooding after a routing update\<close>

text \<open>
  C5: a Control packet makes the router send Control packets exactly when the merge
  reports a change. When the merge returns \<open>changed = False\<close>, \<^verbatim>\<open>update_routes\<close>
  returns the router with its new table and untouched interfaces. When it returns
  \<open>changed = True\<close>, every interface receives one packet, the table of the router
  after the merge, at the end of its outbound queue; the puts are blocking ones, so
  this is stated for outbound queues that have room.
\<close>

theorem flood_iff_changed:
  assumes "to_byte_S p = Inr pbody"
    and "loads (drop (dst_S_length + prot_S_length + 2) pbody) = Inr rvec"
    and "merge (name rt) (take 2 (drop (dst_S_length + prot_S_length) pbody)) rvec
           (iter (remdups (keys (rt_tbl_D rt) @ keys rvec))) (rt_tbl_D rt) = Inr (tbl', changed)"
  shows "(\<not> changed \<longrightarrow> update_routes loads dumps iter rt p i = Inr (rt\<lparr>rt_tbl_D := tbl'\<rparr>))
       \<and> (changed \<and> list_all has_room (intf_L rt) \<longrightarrow>
            update_routes loads dumps iter rt p i =
              Inr (rt\<lparr>rt_tbl_D := tbl',
                      intf_L := map (with_packet (routes_packet dumps (name rt) tbl'))
                                  (intf_L rt)\<rparr>))"
proof (intro conjI impI)
  assume "\<not> changed"
  then show "update_routes loads dumps iter rt p i = Inr (rt\<lparr>rt_tbl_D := tbl'\<rparr>)"
    using assms by (simp add: update_routes_def Let_def)
next
  assume c: "changed \<and> list_all has_room (intf_L rt)"
  then have "list_all has_room (intf_L (rt\<lparr>rt_tbl_D := tbl'\<rparr>))" by simp
  from flood_all [OF this, of dumps] c
  show "update_routes loads dumps iter rt p i =
              Inr (rt\<lparr>rt_tbl_D := tbl',
                      intf_L := map (with_packet (routes_packet dumps (name rt) tbl'))
                                  (intf_L rt)\<rparr>)"
    using assms by (simp add: update_routes_def Let_def)
qed

theorem flood_iff_changed_witness:
  "to_byte_S example_control_packet = Inr ''000002R2{}''
   \<and> example_loads (drop (dst_S_length + prot_S_length + 2) ''000002R2{}'')
       = Inr example_vector_R2
   \<and> merge ''R1'' ''R2'' example_vector_R2 [''R2'', ''R3'', ''R1'', ''H2''] example_merged
       = Inr (example_merged, False)
   \<and> update_routes example_loads example_dumps example_iter (example_R1 example_merged)
        example_control_packet 0 = Inr (example_R1 example_merged)
   \<and> merge ''R1'' ''R2'' example_vector_R2 [''R2'', ''R3'', ''R1'', ''H2''] example_table
       = Inr (example_merged, True)
   \<and> list_all has_room (intf_L (example_R1 example_table))
   \<and> update_routes example_loads example_dumps example_iter (example_R1 example_table)
        example_control_packet 0
       = Inr ((example_R1 example_merged)
               \<lparr>intf_L := [with_packet ''000002R1{}'' (Interface_init 0),
                           with_packet ''000002R1{}'' (Interface_init 0)]\<rparr>)"
proof -
  have a: "to_byte_S example_control_packet = Inr ''000002R2{}''" by code_simp
  have b: "example_loads (drop (dst_S_length + prot_S_length + 2) ''000002R2{}'')
       = Inr example_vector_R2" by code_simp
  have r: "take 2 (drop (dst_S_length + prot_S_length) ''000002R2{}'') = ''R2''" by code_simp
  have m1: "merge (name (example_R1 example_merged))
       (take 2 (drop (dst_S_length + prot_S_length) ''000002R2{}'')) example_vector_R2
       (example_iter (remdups (keys (rt_tbl_D (example_R1 example_merged))
          @ keys example_vector_R2)))
       (rt_tbl_D (example_R1 example_merged)) = Inr (example_merged, False)"
    using example_third_merge by (simp add: r example_R1_def example_iter_def)
  have m2: "merge (name (example_R1 example_table))
       (take 2 (drop (dst_S_length + prot_S_length) ''000002R2{}'')) example_vector_R2
       (example_iter (remdups (keys (rt_tbl_D (example_R1 example_table))
          @ keys example_vector_R2)))
       (rt_tbl_D (example_R1 example_table)) = Inr (example_merged, True)"
    using example_second_merge by (simp add: r example_R1_def example_iter_def)
  have h: "list_all has_room (intf_L (example_R1 example_table))" by code_simp
  have e1: "(example_R1 example_merged)\<lparr>rt_tbl_D := example_merged\<rparr>
      = example_R1 example_merged"
    by (simp add: example_R1_def)
  have e2: "(example_R1 example_table)
        \<lparr>rt_tbl_D := example_merged,
          intf_L := map (with_packet
                          (routes_packet example_dumps (name (example_R1 example_table))
                             example_merged))
                      (intf_L (example_R1 example_table))\<rparr>
      = (example_R1 example_merged)
               \<lparr>intf_L := [with_packet ''000002R1{}'' (Interface_init 0),
                           with_packet ''000002R1{}'' (Interface_init 0)]\<rparr>"
    by (simp add: example_R1_def routes_packet_def example_dumps_def)
  have u1: "update_routes example_loads example_dumps example_iter (example_R1 example_merged)
        example_control_packet 0 = Inr (example_R1 example_merged)"
    using flood_iff_changed [where loads = example_loads and iter = example_iter
        and rt = "example_R1 example_merged" and dumps = example_dumps and i = 0, OF a b m1]
    by (simp add: e1)
  have u2: "update_routes example_loads example_dumps example_iter (example_R1 example_table)
        example_control_packet 0
       = Inr ((example_R1 example_merged)
               \<lparr>intf_L := [with_packet ''000002R1{}'' (Interface_init 0),
                           with_packet ''000002R1{}'' (Interface_init 0)]\<rparr>)"
    using flood_iff_changed [where loads = example_loads and iter = example_iter
        and rt = "example_R1 example_table" and dumps = example_dumps and i = 0, OF a b m2] h
    by (simp add: e2)
  from a b example_third_merge u1 example_second_merge h u2 show ?thesis by simp
qed

subsection \<open>A packet with an unknown tag\<close>

text \<open>
  C9, as stated: a packet whose tag is not recognized is dropped and the pass goes on
  with the next interface. In the code nothing catches the exception of
  \<^verbatim>\<open>from_byte_S\<close>: it leaves \<^verbatim>\<open>process_queues\<close>, and with it the loop of \<^verbatim>\<open>run\<close>. The
  first interface holds a packet with tag \<open>9\<close>, the second a Data packet for the
  neighbor \<open>H1\<close>; the pass ends with the error and the second packet is not forwarded.
\<close>

theorem bad_tag_is_fatal_counterexample:
  "from_byte_S ''000H19x'' = Inl TypeError
   \<and> process_queues example_loads example_dumps example_iter example_bad_tag_router
       = Inl TypeError"
  by code_simp

text \<open>
  C9, amended: when a pass reaches an interface whose inbound queue has at its head a
  byte string whose tag character is neither \<open>1\<close> nor \<open>2\<close> (a string of fewer than six
  characters has none), \<^verbatim>\<open>from_byte_S\<close> raises, the exception propagates out of
  \<^verbatim>\<open>process_queues\<close> and the remaining interfaces are not processed in that pass.
\<close>

theorem unrecognized_tag_aborts_pass:
  assumes "i < length (intf_L rt)"
    and "for_each (process_interface loads dumps iter) [0..<i] rt = Inr rt1"
    and "in_queue (intf_L rt1 ! i) = pkt_S # rest"
    and "take prot_S_length (drop dst_S_length pkt_S) \<noteq> ''1''"
    and "take prot_S_length (drop dst_S_length pkt_S) \<noteq> ''2''"
  shows "process_queues loads dumps iter rt = Inl TypeError"
proof -
  have len: "i < length (intf_L rt1)" using pass_length [OF assms(2)] assms(1) by simp
  have split: "[0..<length (intf_L rt)] = [0..<i] @ i # [Suc i..<length (intf_L rt)]"
    using assms(1) by (metis le0 upt_add_eq_append upt_conv_Cons le_add_diff_inverse less_imp_le add_0)
  show ?thesis
    unfolding process_queues_def split
    using assms(2) process_interface_bad_tag [OF len assms(3-5), of loads dumps iter]
    by (simp add: for_each_append)
qed

theorem unrecognized_tag_aborts_pass_witness:
  "(1 :: nat) < length (intf_L example_short_packet_router)
   \<and> for_each (process_interface example_loads example_dumps example_iter) [0..<1]
        example_short_packet_router
       = Inr (example_neighbor_router
               \<lparr>intf_L := [\<lparr>in_queue = [], out_queue = [''000H11x''], maxsize = 0\<rparr>,
                           \<lparr>in_queue = [''0001''], out_queue = [], maxsize = 0\<rparr>]\<rparr>)
   \<and> take prot_S_length (drop dst_S_length ''0001'') \<noteq> ''1''
   \<and> take prot_S_length (drop dst_S_length ''0001'') \<noteq> ''2''
   \<and> process_queues example_loads example_dumps example_iter example_short_packet_router
       = Inl TypeError"
proof -
  have a: "(1 :: nat) < length (intf_L example_short_packet_router)" by code_simp
  have b: "for_each (process_interface example_loads example_dumps example_iter) [0..<1]
        example_short_packet_router
       = Inr (example_neighbor_router
               \<lparr>intf_L := [\<lparr>in_queue = [], out_queue = [''000H11x''], maxsize = 0\<rparr>,
                           \<lparr>in_queue = [''0001''], out_queue = [], maxsize = 0\<rparr>]\<rparr>)"
    by code_simp
  have c: "in_queue (intf_L (example_neighbor_router
               \<lparr>intf_L := [\<lparr>in_queue = [], out_queue = [''000H11x''], maxsize = 0\<rparr>,
                           \<lparr>in_queue = [''0001''], out_queue = [], maxsize = 0\<rparr>]\<rparr>) ! 1)
      = ''0001'' # []" by simp
  have d: "take prot_S_length (drop dst_S_length ''0001'') \<noteq> ''1''" by code_simp
  have e: "take prot_S_length (drop dst_S_length ''0001'') \<noteq> ''2''" by code_simp
  from unrecognized_tag_aborts_pass [OF a b c d e] a b d e show ?thesis by simp
qed

end
